theory Spec2Isabelle
  imports Main
begin

section \<open>The tincan chat server: session registry and message router\<close>

text \<open>
  The development follows \<^verbatim>\<open>internal/server/server.go\<close>: the helper functions
  \<^verbatim>\<open>logChatMessage\<close>, \<^verbatim>\<open>addMessageToHistory\<close>, \<^verbatim>\<open>sendToClient\<close>,
  \<^verbatim>\<open>broadcastMessage\<close> and the per-connection goroutine \<^verbatim>\<open>handleConnection\<close>.
  Go strings are byte sequences and are modelled as \<^typ>\<open>string\<close>.
\<close>

subsection \<open>Constants\<close>

definition USERNAME_MAX_LEN :: nat where
  "USERNAME_MAX_LEN = 50"

definition MAX_HISTORY_LINES :: nat where
  "MAX_HISTORY_LINES = 20"

subsection \<open>The string functions of the Go library the server calls\<close>

abbreviation NL :: char where
  "NL \<equiv> CHR 0x0A"

definition HasPrefix :: "string \<Rightarrow> string \<Rightarrow> bool" where
  "HasPrefix s p = (take (length p) s = p)"

definition HasSuffix :: "string \<Rightarrow> string \<Rightarrow> bool" where
  "HasSuffix s p = (length p \<le> length s \<and> drop (length s - length p) s = p)"

definition TrimSuffix :: "string \<Rightarrow> string \<Rightarrow> string" where
  "TrimSuffix s p = (if HasSuffix s p then take (length s - length p) s else s)"

text \<open>
  \<^verbatim>\<open>strings.TrimSpace\<close> removes the leading and the trailing white-space runes of a
  string, the runes of \<^verbatim>\<open>unicode.IsSpace\<close>: U+0009 to U+000D, U+0020, U+0085, U+00A0,
  U+1680, U+2000 to U+200A, U+2028, U+2029, U+202F, U+205F and U+3000. The table lists their
  UTF-8 encodings. Go decodes a rune only from its valid, shortest encoding and takes every
  other byte for the rune U+FFFD, which is no white space; no encoding of the table is the
  beginning or the end of another one. So a string begins with a white-space rune exactly
  when it begins with an entry of the table, and ends with one exactly when it ends with an
  entry.
\<close>

definition whiteSpace :: "string list" where
  "whiteSpace =
     [[CHR 0x09], [CHR 0x0A], [CHR 0x0B], [CHR 0x0C], [CHR 0x0D], [CHR 0x20],
      [CHR 0xC2, CHR 0x85], [CHR 0xC2, CHR 0xA0],
      [CHR 0xE1, CHR 0x9A, CHR 0x80],
      [CHR 0xE2, CHR 0x80, CHR 0x80], [CHR 0xE2, CHR 0x80, CHR 0x81],
      [CHR 0xE2, CHR 0x80, CHR 0x82], [CHR 0xE2, CHR 0x80, CHR 0x83],
      [CHR 0xE2, CHR 0x80, CHR 0x84], [CHR 0xE2, CHR 0x80, CHR 0x85],
      [CHR 0xE2, CHR 0x80, CHR 0x86], [CHR 0xE2, CHR 0x80, CHR 0x87],
      [CHR 0xE2, CHR 0x80, CHR 0x88], [CHR 0xE2, CHR 0x80, CHR 0x89],
      [CHR 0xE2, CHR 0x80, CHR 0x8A],
      [CHR 0xE2, CHR 0x80, CHR 0xA8], [CHR 0xE2, CHR 0x80, CHR 0xA9],
      [CHR 0xE2, CHR 0x80, CHR 0xAF],
      [CHR 0xE2, CHR 0x81, CHR 0x9F],
      [CHR 0xE3, CHR 0x80, CHR 0x80]]"

text \<open>The white-space rune a string begins with, and the one it ends with, if any.\<close>

definition leadingSpace :: "string \<Rightarrow> string option" where
  "leadingSpace s = find (HasPrefix s) whiteSpace"

definition trailingSpace :: "string \<Rightarrow> string option" where
  "trailingSpace s = find (HasSuffix s) whiteSpace"

text \<open>\<^verbatim>\<open>TrimLeftFunc(s, unicode.IsSpace)\<close>: drop white-space runes from the front.\<close>

function TrimLeft :: "string \<Rightarrow> string" where
  "TrimLeft s = (case leadingSpace s of Some w \<Rightarrow> TrimLeft (drop (length w) s) | None \<Rightarrow> s)"
  by pat_completeness auto
termination
proof (relation "measure length")
  show "wf (measure length)" by simp
next
  fix s w
  assume "leadingSpace s = Some w"
  then have "w \<in> set whiteSpace" and "take (length w) s = w"
    by (auto simp: leadingSpace_def find_Some_iff HasPrefix_def)
  then have "w \<noteq> []" and "s \<noteq> []"
    by (auto simp: whiteSpace_def)
  then show "(drop (length w) s, s) \<in> measure length" by simp
qed

text \<open>\<^verbatim>\<open>TrimRightFunc(s, unicode.IsSpace)\<close>: drop white-space runes from the end.\<close>

function TrimRight :: "string \<Rightarrow> string" where
  "TrimRight s =
     (case trailingSpace s of Some w \<Rightarrow> TrimRight (take (length s - length w) s) | None \<Rightarrow> s)"
  by pat_completeness auto
termination
proof (relation "measure length")
  show "wf (measure length)" by simp
next
  fix s w
  assume "trailingSpace s = Some w"
  then have "w \<in> set whiteSpace" and "length w \<le> length s"
    by (auto simp: trailingSpace_def find_Some_iff HasSuffix_def)
  then have "w \<noteq> []" and "length w \<le> length s"
    by (auto simp: whiteSpace_def)
  then show "(take (length s - length w) s, s) \<in> measure length" by (cases w) auto
qed

declare TrimLeft.simps [simp del] TrimRight.simps [simp del]

definition TrimSpace :: "string \<Rightarrow> string" where
  "TrimSpace s = TrimRight (TrimLeft s)"

text \<open>
  \<^verbatim>\<open>strings.SplitN(s, sep, n)\<close> for a one-byte separator: at most \<open>n\<close> pieces,
  the last one the unsplit rest; no piece at all for \<open>n = 0\<close>.
\<close>

fun SplitN :: "string \<Rightarrow> char \<Rightarrow> nat \<Rightarrow> string list" where
  "SplitN s sep 0 = []"
| "SplitN s sep (Suc 0) = [s]"
| "SplitN s sep (Suc (Suc n)) =
     (if sep \<in> set s
      then takeWhile (\<lambda>c. c \<noteq> sep) s
             # SplitN (tl (dropWhile (\<lambda>c. c \<noteq> sep) s)) sep (Suc n)
      else [s])"

text \<open>
  The idiom \<^verbatim>\<open>if !strings.HasSuffix(message, "\n") { message += "\n" }\<close> that opens
  \<^verbatim>\<open>logChatMessage\<close>, \<^verbatim>\<open>addMessageToHistory\<close>, \<^verbatim>\<open>sendToClient\<close> and
  \<^verbatim>\<open>broadcastMessage\<close>.
\<close>

definition ensureNewline :: "string \<Rightarrow> string" where
  "ensureNewline message = (if HasSuffix message [NL] then message else message @ [NL])"

subsection \<open>The shared state of the server\<close>

text \<open>
  A connection (\<^verbatim>\<open>net.Conn\<close>) is an identity; every accepted connection is a fresh one.
\<close>

type_synonym conn = nat

text \<open>
  \<^verbatim>\<open>ClientInfo\<close>: the fields \<^verbatim>\<open>conn\<close>, \<^verbatim>\<open>reader\<close> and \<^verbatim>\<open>writer\<close> are the
  connection itself; what has been written to the writer is the component \<open>sent\<close> of the
  server state below.
\<close>

record ClientInfo =
  username :: string
  active :: bool

record GroupInfo =
  name :: string
  members :: "string list"

text \<open>
  The package-level variables. \<open>chatLog\<close> is the content of the file behind
  \<^verbatim>\<open>chatLogFileHandler\<close>, which \<^verbatim>\<open>Start\<close> opens before it accepts any connection;
  \<open>clock\<close> is what \<^verbatim>\<open>getTimestamp()\<close> returns at the moment; \<open>sent c\<close> lists the
  strings written to connection \<open>c\<close>, oldest first.
\<close>

record server =
  clients :: "conn \<rightharpoonup> ClientInfo"
  allowedUsernames :: "string set"
  groups :: "string \<rightharpoonup> GroupInfo"
  chatHistory :: "string list"
  chatLog :: "string list"
  sent :: "conn \<Rightarrow> string list"
  clock :: string

definition initial :: "string set \<Rightarrow> (string \<rightharpoonup> GroupInfo) \<Rightarrow> string \<Rightarrow> server" where
  "initial al gr t =
     \<lparr>clients = Map.empty, allowedUsernames = al, groups = gr, chatHistory = [],
      chatLog = [], sent = (\<lambda>c. []), clock = t\<rparr>"

text \<open>
  Go iterates over a map in an order it chooses anew at every \<^verbatim>\<open>range\<close> loop. Each
  loop over \<^verbatim>\<open>clients\<close> therefore takes the order as an argument: a list of the keys
  of the map, each once.
\<close>

definition rangeOrder :: "conn list \<Rightarrow> server \<Rightarrow> bool" where
  "rangeOrder order s = (distinct order \<and> set order = dom (clients s))"

subsection \<open>Helpers\<close>

definition isUsernameAllowed :: "string \<Rightarrow> server \<Rightarrow> bool" where
  "isUsernameAllowed u s = (u \<in> allowedUsernames s)"

definition logChatMessage :: "string \<Rightarrow> server \<Rightarrow> server" where
  "logChatMessage message s =
     s\<lparr>chatLog := chatLog s @ [''['' @ clock s @ ''] '' @ ensureNewline message]\<rparr>"

text \<open>
  \<^verbatim>\<open>addMessageToHistory\<close>: append the newline-terminated message, then keep the last
  \<^verbatim>\<open>MAX_HISTORY_LINES\<close> entries of the slice.
\<close>

definition addMessageToHistory :: "string \<Rightarrow> server \<Rightarrow> server" where
  "addMessageToHistory message s =
     (let h = chatHistory s @ [ensureNewline message]
      in s\<lparr>chatHistory :=
             (if length h > MAX_HISTORY_LINES then drop (length h - MAX_HISTORY_LINES) h
              else h)\<rparr>)"

text \<open>
  \<^verbatim>\<open>sendToClient\<close>. A failed write is only reported on the operator's log, so \<open>sent\<close>
  records what the server wrote.
\<close>

definition sendToClient :: "conn \<Rightarrow> string \<Rightarrow> server \<Rightarrow> server" where
  "sendToClient c message s = s\<lparr>sent := (sent s)(c := sent s c @ [ensureNewline message])\<rparr>"

text \<open>The loop of \<^verbatim>\<open>broadcastMessage\<close>; \<open>None\<close> is the \<^verbatim>\<open>nil\<close> connection.\<close>

fun broadcastLoop :: "conn list \<Rightarrow> string \<Rightarrow> conn option \<Rightarrow> server \<Rightarrow> server" where
  "broadcastLoop [] message excludeConn s = s"
| "broadcastLoop (c # cs) message excludeConn s =
     (case clients s c of
        Some client \<Rightarrow>
          if active client \<and> Some c \<noteq> excludeConn
          then broadcastLoop cs message excludeConn (sendToClient c message s)
          else broadcastLoop cs message excludeConn s
      | None \<Rightarrow> broadcastLoop cs message excludeConn s)"

definition broadcastMessage :: "conn list \<Rightarrow> string \<Rightarrow> conn option \<Rightarrow> server \<Rightarrow> server" where
  "broadcastMessage order message excludeConn s =
     broadcastLoop order (ensureNewline message) excludeConn s"

subsection \<open>The handshake of \<^verbatim>\<open>handleConnection\<close>\<close>

text \<open>
  Where the goroutine of a connection stands. \<open>Idle\<close>: not accepted yet.
  \<open>AwaitingUsername\<close>: registered, \<^verbatim>\<open>REQ_USERNAME\<close> sent, blocked in the first
  \<^verbatim>\<open>ReadString\<close>. \<open>Checked u\<close>: the four checks have passed and the read lock is
  released. \<open>Welcoming u\<close>: marked active under the write lock, nothing sent yet.
  \<open>Active u\<close>: in the message loop. \<open>Closing\<close>: returned during the handshake, on a read
  error or a rejection; the deferred function has not taken the lock yet. \<open>Leaving u\<close>: out
  of the message loop on a read error; the deferred function has not taken the lock yet.
  \<open>Departing u\<close>: deleted from the map while active, the departure not announced yet.
  \<open>Closed\<close>: finished.
\<close>

datatype phase =
    Idle
  | AwaitingUsername
  | Checked string
  | Welcoming string
  | Active string
  | Closing
  | Leaving string
  | Departing string
  | Closed

text \<open>Registration with \<^verbatim>\<open>active: false\<close>, then \<^verbatim>\<open>REQ_USERNAME\<close>.\<close>

definition accept :: "conn \<Rightarrow> server \<Rightarrow> server" where
  "accept c s =
     sendToClient c ''REQ_USERNAME''
       (s\<lparr>clients := (clients s)(c \<mapsto> \<lparr>username = [], active = False\<rparr>)\<rparr>)"

text \<open>The loop that sets \<^verbatim>\<open>alreadyExists\<close>.\<close>

fun usernameInUse :: "conn list \<Rightarrow> conn \<Rightarrow> string \<Rightarrow> (conn \<rightharpoonup> ClientInfo) \<Rightarrow> bool" where
  "usernameInUse [] c u cl = False"
| "usernameInUse (e # es) c u cl =
     (case cl e of
        Some existingClient \<Rightarrow>
          if active existingClient \<and> username existingClient = u \<and> e \<noteq> c then True
          else usernameInUse es c u cl
      | None \<Rightarrow> usernameInUse es c u cl)"

text \<open>
  The checks on the line read after \<^verbatim>\<open>REQ_USERNAME\<close>, in the order of the source. A
  rejection writes the reply and returns; the deferred function then closes the connection.
\<close>

definition checkUsername :: "conn list \<Rightarrow> conn \<Rightarrow> string \<Rightarrow> server \<Rightarrow> server \<times> phase" where
  "checkUsername order c usernameLine s =
     (let u = TrimSpace usernameLine
      in if u = [] then
           (sendToClient c (''BAD_USERNAME'' @ [NL] @ ''Username cannot be empty.'') s, Closing)
         else if length u \<ge> USERNAME_MAX_LEN then
           (sendToClient c (''BAD_USERNAME'' @ [NL] @ ''Username too long.'') s, Closing)
         else if \<not> isUsernameAllowed u s then
           (sendToClient c (''NOT_ALLOWED'' @ [NL] @ ''Username not on allowed list.'') s, Closing)
         else if usernameInUse order c u (clients s) then
           (sendToClient c (''BAD_USERNAME'' @ [NL] @ ''Username already in use.'') s, Closing)
         else (s, Checked u))"

text \<open>The update under the write lock.\<close>

definition activate :: "conn \<Rightarrow> string \<Rightarrow> server \<Rightarrow> server" where
  "activate c u s = s\<lparr>clients := (clients s)(c \<mapsto> \<lparr>username = u, active = True\<rparr>)\<rparr>"

text \<open>The welcome, the replay of the history, and the join notice.\<close>

definition replayHistory :: "conn \<Rightarrow> server \<Rightarrow> server" where
  "replayHistory c s =
     (if length (chatHistory s) > 0 then
        sendToClient c ''--- End of History ---''
          (fold (sendToClient c) (chatHistory s)
             (sendToClient c ''--- Recent Chat History ---'' s))
      else s)"

definition welcomeMsg :: "string \<Rightarrow> string" where
  "welcomeMsg u = ''Welcome, '' @ u @ ''!''"

definition joinMsg :: "string \<Rightarrow> string" where
  "joinMsg u = ''System: '' @ u @ '' has joined the chat.''"

definition greet :: "conn list \<Rightarrow> conn \<Rightarrow> string \<Rightarrow> server \<Rightarrow> server" where
  "greet order c u s =
     broadcastMessage order (joinMsg u) (Some c)
       (addMessageToHistory (joinMsg u)
          (logChatMessage (joinMsg u)
             (replayHistory c (sendToClient c (welcomeMsg u) s))))"

text \<open>
  The handshake of one connection run without interruption, from the line read to the
  message loop or to the return.
\<close>

definition login :: "conn list \<Rightarrow> conn \<Rightarrow> string \<Rightarrow> server \<Rightarrow> server \<times> phase" where
  "login order c usernameLine s =
     (case checkUsername order c usernameLine s of
        (s', Checked u) \<Rightarrow> (greet order c u (activate c u s'), Active u)
      | (s', p) \<Rightarrow> (s', p))"

subsection \<open>The message loop of \<^verbatim>\<open>handleConnection\<close>\<close>

text \<open>
  The search for the session that receives a direct or a group message: the first active
  session with that username that the loop meets.
\<close>

fun findActive :: "conn list \<Rightarrow> string \<Rightarrow> (conn \<rightharpoonup> ClientInfo) \<Rightarrow> conn option" where
  "findActive [] u cl = None"
| "findActive (c # cs) u cl =
     (case cl c of
        Some rc \<Rightarrow> if active rc \<and> username rc = u then Some c else findActive cs u cl
      | None \<Rightarrow> findActive cs u cl)"

text \<open>
  The two nested loops of the group branch. The inner loop for the \<open>i\<close>-th member of the
  group runs over the map in the order \<open>ord i\<close>.
\<close>

fun deliverGroup :: "(nat \<Rightarrow> conn list) \<Rightarrow> nat \<Rightarrow> string list \<Rightarrow> string \<Rightarrow> server \<Rightarrow> server" where
  "deliverGroup ord i [] gmToSend s = s"
| "deliverGroup ord i (memberUsername # rest) gmToSend s =
     (case findActive (ord i) memberUsername (clients s) of
        Some c \<Rightarrow> deliverGroup ord (Suc i) rest gmToSend (sendToClient c gmToSend s)
      | None \<Rightarrow> deliverGroup ord (Suc i) rest gmToSend s)"

definition dmToRecipient :: "string \<Rightarrow> string \<Rightarrow> string" where
  "dmToRecipient sender dmText = ''(DM from '' @ sender @ ''): '' @ dmText"

definition dmToSender :: "string \<Rightarrow> string \<Rightarrow> string" where
  "dmToSender recipientUsername dmText = ''(DM to '' @ recipientUsername @ ''): '' @ dmText"

definition dmLog :: "string \<Rightarrow> string \<Rightarrow> string \<Rightarrow> string" where
  "dmLog sender recipientUsername dmText =
     ''DM from '' @ sender @ '' to '' @ recipientUsername @ '': '' @ dmText"

definition userNotFound :: "string \<Rightarrow> string" where
  "userNotFound recipientUsername =
     ''System: User '' @ [CHR 0x27] @ recipientUsername @ [CHR 0x27] @ '' not found or is offline.''"

definition gmToSend :: "string \<Rightarrow> string \<Rightarrow> string \<Rightarrow> string" where
  "gmToSend g sender gmText = ''(#'' @ g @ '' from '' @ sender @ ''): '' @ gmText"

definition confirmationToSender :: "string \<Rightarrow> string \<Rightarrow> string" where
  "confirmationToSender g gmText = ''(To #'' @ g @ ''): '' @ gmText"

definition gmLog :: "string \<Rightarrow> string \<Rightarrow> string \<Rightarrow> string" where
  "gmLog g sender gmText = ''GROUPMSG to #'' @ g @ '' from '' @ sender @ '': '' @ gmText"

definition groupNotFound :: "string \<Rightarrow> string" where
  "groupNotFound groupNameReq =
     ''System: Group '' @ [CHR 0x27] @ ''#'' @ groupNameReq @ [CHR 0x27] @ '' not found.''"

definition invalidDM :: string where
  "invalidDM = ''System: Invalid DM format. Use: PRIVMSG <user> <message>''"

definition invalidGM :: string where
  "invalidGM = ''System: Invalid GM format. Use: GROUPMSG <group> <message>''"

text \<open>
  The test \<^verbatim>\<open>len(parts) < 3 || parts[1] == "" || parts[2] == ""\<close>; Go evaluates the
  indexing only when the length allows it.
\<close>

definition malformed :: "string list \<Rightarrow> bool" where
  "malformed parts = (if length parts < 3 then True else parts ! 1 = [] \<or> parts ! 2 = [])"

text \<open>
  One turn of the loop for the line \<open>message\<close> that \<^verbatim>\<open>ReadString\<close> returned, terminator
  included, on the connection \<open>c\<close> whose \<^verbatim>\<open>client.username\<close> is \<open>u\<close>. The lookup of the
  recipient and the broadcast use the order \<open>ord 0\<close>.
\<close>

definition handleMessage :: "(nat \<Rightarrow> conn list) \<Rightarrow> conn \<Rightarrow> string \<Rightarrow> string \<Rightarrow> server \<Rightarrow> server" where
  "handleMessage ord c u message s =
     (let fullMessageCmd = TrimSpace message
      in if HasPrefix fullMessageCmd ''PRIVMSG '' then
           (let parts = SplitN fullMessageCmd (CHR '' '') 3
            in if malformed parts then sendToClient c invalidDM s
               else
                 (let recipientUsername = parts ! 1; dmText = parts ! 2
                  in case findActive (ord 0) recipientUsername (clients s) of
                       Some rc \<Rightarrow>
                         addMessageToHistory (dmLog u recipientUsername dmText)
                           (logChatMessage (dmLog u recipientUsername dmText)
                              (sendToClient c (dmToSender recipientUsername dmText)
                                 (sendToClient rc (dmToRecipient u dmText) s)))
                     | None \<Rightarrow> sendToClient c (userNotFound recipientUsername) s))
         else if HasPrefix fullMessageCmd ''GROUPMSG '' then
           (let parts = SplitN fullMessageCmd (CHR '' '') 3
            in if malformed parts then sendToClient c invalidGM s
               else
                 (let groupNameReq = parts ! 1; gmText = parts ! 2
                  in case groups s groupNameReq of
                       Some grp \<Rightarrow>
                         addMessageToHistory (gmLog (name grp) u gmText)
                           (logChatMessage (gmLog (name grp) u gmText)
                              (sendToClient c (confirmationToSender (name grp) gmText)
                                 (deliverGroup ord 0 (members grp)
                                    (gmToSend (name grp) u gmText) s)))
                     | None \<Rightarrow> sendToClient c (groupNotFound groupNameReq) s))
         else
           (let globalMsg = u @ '': '' @ message
            in broadcastMessage (ord 0) globalMsg None
                 (addMessageToHistory (TrimSuffix globalMsg [NL])
                    (logChatMessage (TrimSuffix globalMsg [NL]) s))))"

subsection \<open>The deferred function of \<^verbatim>\<open>handleConnection\<close>\<close>

definition leftMsg :: "string \<Rightarrow> string" where
  "leftMsg usernameForLog = ''System: '' @ usernameForLog @ '' has left the chat.''"

text \<open>
  The part under the write lock: the entry is deleted; an active session goes on to announce
  its departure under the name \<^verbatim>\<open>usernameForLog\<close>.
\<close>

definition unregister :: "conn \<Rightarrow> server \<Rightarrow> server \<times> phase" where
  "unregister c s =
     (case clients s c of
        Some cl \<Rightarrow>
          (let usernameForLog = (if username cl = [] then ''[unauthenticated]'' else username cl)
           in (s\<lparr>clients := (clients s)(c := None)\<rparr>,
               if active cl then Departing usernameForLog else Closed))
      | None \<Rightarrow> (s, Closed))"

definition depart :: "conn list \<Rightarrow> string \<Rightarrow> server \<Rightarrow> server" where
  "depart order usernameForLog s =
     broadcastMessage order (leftMsg usernameForLog) None
       (addMessageToHistory (leftMsg usernameForLog)
          (logChatMessage (leftMsg usernameForLog) s))"

text \<open>The whole deferred function, run without interruption.\<close>

definition cleanup :: "conn list \<Rightarrow> conn \<Rightarrow> server \<Rightarrow> server" where
  "cleanup order c s =
     (case unregister c s of
        (s', Departing usernameForLog) \<Rightarrow> depart order usernameForLog s'
      | (s', p) \<Rightarrow> s')"

subsection \<open>The goroutines together\<close>

text \<open>
  \<^verbatim>\<open>Start\<close> runs one \<^verbatim>\<open>handleConnection\<close> per accepted connection, concurrently. A
  step of the server is a step of one goroutine, labelled by the phase it leaves. The
  registry is read and written inside critical sections of \<^verbatim>\<open>clientsMutex\<close>, and a step
  contains at most one of them: the steps of different goroutines interleave between any two
  critical sections of that mutex. What a goroutine writes to the history, to the log and to
  the connections between two such sections belongs to the same step. \<open>RecvUsername\<close> and
  \<open>RecvLine\<close> take the line that \<^verbatim>\<open>ReadString\<close> returns, the two \<open>ReadError\<close> steps
  are its error return, the two \<open>Unregister\<close> steps are the locked part of the deferred
  function, and \<open>Tick\<close> lets the clock advance. The handler of the WebSocket
  endpoint never writes \<^verbatim>\<open>clients\<close> and is not part of the steps.
\<close>

text \<open>
  What \<^verbatim>\<open>ReadString('\n')\<close> returns without an error: the bytes up to and including
  the first newline.
\<close>

definition isLine :: "string \<Rightarrow> bool" where
  "isLine message = (message \<noteq> [] \<and> last message = NL \<and> NL \<notin> set (butlast message))"

inductive step :: "server \<times> (conn \<Rightarrow> phase) \<Rightarrow> server \<times> (conn \<Rightarrow> phase) \<Rightarrow> bool" where
  Accept: "ph c = Idle \<Longrightarrow> step (s, ph) (accept c s, ph(c := AwaitingUsername))"
| RecvUsername: "ph c = AwaitingUsername \<Longrightarrow> isLine usernameLine \<Longrightarrow> rangeOrder order s \<Longrightarrow>
     checkUsername order c usernameLine s = (s', p) \<Longrightarrow> step (s, ph) (s', ph(c := p))"
| Activate: "ph c = Checked u \<Longrightarrow> step (s, ph) (activate c u s, ph(c := Welcoming u))"
| Greet: "ph c = Welcoming u \<Longrightarrow> rangeOrder order s \<Longrightarrow>
     step (s, ph) (greet order c u s, ph(c := Active u))"
| RecvLine: "ph c = Active u \<Longrightarrow> isLine message \<Longrightarrow> (\<And>i. rangeOrder (ord i) s) \<Longrightarrow>
     step (s, ph) (handleMessage ord c u message s, ph)"
| ReadErrorUsername: "ph c = AwaitingUsername \<Longrightarrow> step (s, ph) (s, ph(c := Closing))"
| ReadErrorLine: "ph c = Active u \<Longrightarrow> step (s, ph) (s, ph(c := Leaving u))"
| UnregisterClosing: "ph c = Closing \<Longrightarrow> unregister c s = (s', p) \<Longrightarrow>
     step (s, ph) (s', ph(c := p))"
| UnregisterLeaving: "ph c = Leaving u \<Longrightarrow> unregister c s = (s', p) \<Longrightarrow>
     step (s, ph) (s', ph(c := p))"
| Depart: "ph c = Departing u \<Longrightarrow> rangeOrder order s \<Longrightarrow>
     step (s, ph) (depart order u s, ph(c := Closed))"
| Tick: "step (s, ph) (s\<lparr>clock := t\<rparr>, ph)"

inductive reachable :: "server \<times> (conn \<Rightarrow> phase) \<Rightarrow> bool" where
  Init: "reachable (initial al gr t, (\<lambda>c. Idle))"
| Step: "reachable cfg \<Longrightarrow> step cfg cfg' \<Longrightarrow> reachable cfg'"

subsection \<open>Notions used in the statements\<close>

text \<open>The last \<^verbatim>\<open>MAX_HISTORY_LINES\<close> entries of a list.\<close>

definition keepLast :: "string list \<Rightarrow> string list" where
  "keepLast h = drop (length h - MAX_HISTORY_LINES) h"

text \<open>
  A session is Active when the registry holds it with the flag \<^verbatim>\<open>active\<close> set; that is
  the test of every loop over \<^verbatim>\<open>clients\<close>.
\<close>

definition isActive :: "server \<Rightarrow> conn \<Rightarrow> bool" where
  "isActive s c = (case clients s c of Some cl \<Rightarrow> active cl | None \<Rightarrow> False)"

definition activeAs :: "server \<Rightarrow> conn \<Rightarrow> string \<Rightarrow> bool" where
  "activeAs s c u = (case clients s c of Some cl \<Rightarrow> active cl \<and> username cl = u | None \<Rightarrow> False)"

text \<open>What the replay of a history \<open>h\<close> writes to the joining connection.\<close>

definition replayLines :: "string list \<Rightarrow> string list" where
  "replayLines h =
     (if h = [] then []
      else [''--- Recent Chat History ---'' @ [NL]] @ map ensureNewline h
             @ [''--- End of History ---'' @ [NL]])"

text \<open>
  The registry entry that goes with each phase of a goroutine: none before the accept and
  after the deletion; an entry that is not active and has no username during the handshake
  and after a return from it, until the deletion; an active entry with the username from the
  registration on, in the message loop and after it, until the deletion.
\<close>

fun entryFor :: "phase \<Rightarrow> ClientInfo option \<Rightarrow> bool" where
  "entryFor Idle e = (e = None)"
| "entryFor AwaitingUsername e = (e = Some \<lparr>username = [], active = False\<rparr>)"
| "entryFor (Checked u) e = (e = Some \<lparr>username = [], active = False\<rparr> \<and> u \<noteq> [])"
| "entryFor (Welcoming u) e = (e = Some \<lparr>username = u, active = True\<rparr> \<and> u \<noteq> [])"
| "entryFor (Active u) e = (e = Some \<lparr>username = u, active = True\<rparr> \<and> u \<noteq> [])"
| "entryFor Closing e = (e = Some \<lparr>username = [], active = False\<rparr>)"
| "entryFor (Leaving u) e = (e = Some \<lparr>username = u, active = True\<rparr> \<and> u \<noteq> [])"
| "entryFor (Departing u) e = (e = None)"
| "entryFor Closed e = (e = None)"

subsection \<open>Example states\<close>

text \<open>A full history buffer, and 25 lines to append to an empty one.\<close>

definition fullHistory :: server where
  "fullHistory =
     \<lparr>clients = Map.empty, allowedUsernames = {}, groups = Map.empty,
      chatHistory = map (\<lambda>c. [c, NL]) ''abcdefghijklmnopqrst'',
      chatLog = [], sent = (\<lambda>c. []), clock = []\<rparr>"

definition lines25 :: "string list" where
  "lines25 = map (\<lambda>c. [c]) ''abcdefghijklmnopqrstuvwxy''"

text \<open>
  A registry with one Active session, \<open>alice\<close> on connection 1, and connection 2
  waiting for its username.
\<close>

definition lobby :: server where
  "lobby =
     \<lparr>clients = [1 \<mapsto> \<lparr>username = ''alice'', active = True\<rparr>,
                 2 \<mapsto> \<lparr>username = [], active = False\<rparr>],
      allowedUsernames = {''alice'', ''bob''},
      groups = [''friends'' \<mapsto> \<lparr>name = ''friends'', members = [''alice'', ''bob'']\<rparr>],
      chatHistory = [], chatLog = [], sent = (\<lambda>c. []), clock = ''t''\<rparr>"

text \<open>
  A registry with two Active sessions, \<open>alice\<close> on connection 1 and \<open>bob\<close> on
  connection 2, and connection 3 waiting for its username.
\<close>

definition room :: server where
  "room =
     \<lparr>clients = [1 \<mapsto> \<lparr>username = ''alice'', active = True\<rparr>,
                 2 \<mapsto> \<lparr>username = ''bob'', active = True\<rparr>,
                 3 \<mapsto> \<lparr>username = [], active = False\<rparr>],
      allowedUsernames = {''alice'', ''bob'', ''carol''},
      groups = [''friends'' \<mapsto> \<lparr>name = ''friends'', members = [''alice'', ''bob'']\<rparr>],
      chatHistory = [], chatLog = [], sent = (\<lambda>c. []), clock = ''t''\<rparr>"

text \<open>
  \<open>alice\<close> has logged in on connection 1 and left again; connection 2 is accepted and
  waits for its username.
\<close>

definition rejoining :: server where
  "rejoining =
     accept 2 (cleanup [] 1 (fst (login [1] 1 (''alice'' @ [NL])
       (accept 1 (initial {''alice''} Map.empty ''t'')))))"

text \<open>The username \<open>bob\<close> followed by 50 spaces, and the terminator.\<close>

definition paddedLine :: string where
  "paddedLine = ''bob'' @ replicate 50 (CHR 0x20) @ [NL]"

text \<open>
  \<open>alice\<close> is Active on connection 1; connection 2 has sent \<open>alice\<close> too and has been
  told that the username is in use.
\<close>

definition lateComer :: server where
  "lateComer =
     sendToClient 2 (''BAD_USERNAME'' @ [NL] @ ''Username already in use.'')
       (accept 2 (greet [1] 1 ''alice'' (activate 1 ''alice''
          (accept 1 (initial {''alice''} Map.empty ''t'')))))"

text \<open>Two connections are accepted before either has sent its username.\<close>

definition raceStart :: server where
  "raceStart = accept 2 (accept 1 (initial {''alice''} Map.empty ''t''))"

text \<open>
  Both have sent \<open>alice\<close>, both checks have run before either registration, and both
  goroutines have reached the message loop.
\<close>

definition raceEnd :: server where
  "raceEnd =
     greet [1, 2] 2 ''alice'' (greet [1, 2] 1 ''alice''
       (activate 2 ''alice'' (activate 1 ''alice'' raceStart)))"

section \<open>Auxiliary facts\<close>

lemmas trim_defs =
  TrimSpace_def TrimLeft.simps TrimRight.simps leadingSpace_def trailingSpace_def whiteSpace_def
  HasPrefix_def HasSuffix_def

lemma HasSuffix_snoc [simp]: "HasSuffix (m @ [c]) [c]"
  by (simp add: HasSuffix_def)

lemma ensureNewline_idem [simp]: "ensureNewline (ensureNewline m) = ensureNewline m"
  by (simp add: ensureNewline_def)

lemma ensureNewline_snoc [simp]: "ensureNewline (m @ [NL]) = m @ [NL]"
  by (simp add: ensureNewline_def)

lemma TrimSuffix_snoc [simp]: "TrimSuffix (m @ [c]) [c] = m"
  by (simp add: TrimSuffix_def)

lemma logChatMessage_fields [simp]:
  "clients (logChatMessage m s) = clients s"
  "allowedUsernames (logChatMessage m s) = allowedUsernames s"
  "groups (logChatMessage m s) = groups s"
  "chatHistory (logChatMessage m s) = chatHistory s"
  "sent (logChatMessage m s) = sent s"
  "clock (logChatMessage m s) = clock s"
  "chatLog (logChatMessage m s) = chatLog s @ [''['' @ clock s @ ''] '' @ ensureNewline m]"
  by (simp_all add: logChatMessage_def)

lemma addMessageToHistory_fields [simp]:
  "clients (addMessageToHistory m s) = clients s"
  "allowedUsernames (addMessageToHistory m s) = allowedUsernames s"
  "groups (addMessageToHistory m s) = groups s"
  "chatLog (addMessageToHistory m s) = chatLog s"
  "sent (addMessageToHistory m s) = sent s"
  "clock (addMessageToHistory m s) = clock s"
  by (simp_all add: addMessageToHistory_def Let_def)

lemma sendToClient_fields [simp]:
  "clients (sendToClient c m s) = clients s"
  "allowedUsernames (sendToClient c m s) = allowedUsernames s"
  "groups (sendToClient c m s) = groups s"
  "chatLog (sendToClient c m s) = chatLog s"
  "chatHistory (sendToClient c m s) = chatHistory s"
  "clock (sendToClient c m s) = clock s"
  "sent (sendToClient c m s) = (sent s)(c := sent s c @ [ensureNewline m])"
  by (simp_all add: sendToClient_def)


lemma chatHistory_add: 
  "chatHistory (addMessageToHistory m s) = keepLast (chatHistory s @ [ensureNewline m])"
  by (simp add: addMessageToHistory_def Let_def keepLast_def)

lemma keepLast_small: "length h \<le> MAX_HISTORY_LINES \<Longrightarrow> keepLast h = h"
  by (simp add: keepLast_def)

lemma length_keepLast: "length (keepLast h) \<le> MAX_HISTORY_LINES"
  by (simp add: keepLast_def)

lemma keepLast_append: "keepLast (keepLast h @ xs) = keepLast (h @ xs)"
proof (cases "length h \<le> MAX_HISTORY_LINES")
  case True
  then show ?thesis by (simp add: keepLast_small)
next
  case False
  then have "length h - MAX_HISTORY_LINES + MAX_HISTORY_LINES = length h" by simp
  then show ?thesis using False by (simp add: keepLast_def add.commute)
qed

lemma chatHistory_fold:
  "length (chatHistory s) \<le> MAX_HISTORY_LINES \<Longrightarrow>
   chatHistory (fold addMessageToHistory ms s) = keepLast (chatHistory s @ map ensureNewline ms)"
proof (induction ms arbitrary: s)
  case Nil
  then show ?case by (simp add: keepLast_small)
next
  case (Cons m ms)
  have "chatHistory (fold addMessageToHistory (m # ms) s)
        = keepLast (keepLast (chatHistory s @ [ensureNewline m]) @ map ensureNewline ms)"
    by (simp add: Cons.IH chatHistory_add length_keepLast)
  then show ?case by (simp add: keepLast_append)
qed


lemma broadcastLoop_fields [simp]:
  "clients (broadcastLoop order m ex s) = clients s"
  "allowedUsernames (broadcastLoop order m ex s) = allowedUsernames s"
  "groups (broadcastLoop order m ex s) = groups s"
  "chatLog (broadcastLoop order m ex s) = chatLog s"
  "chatHistory (broadcastLoop order m ex s) = chatHistory s"
  "clock (broadcastLoop order m ex s) = clock s"
  by (induction order arbitrary: s; simp split: option.splits)+

lemma sent_broadcastLoop_notin:
  "c \<notin> set order \<Longrightarrow> sent (broadcastLoop order m ex s) c = sent s c"
  by (induction order arbitrary: s) (auto split: option.splits)

lemma sent_broadcastLoop:
  "distinct order \<Longrightarrow> c \<in> set order \<Longrightarrow>
   sent (broadcastLoop order m ex s) c =
     (if isActive s c \<and> Some c \<noteq> ex then sent s c @ [ensureNewline m] else sent s c)"
proof (induction order arbitrary: s)
  case Nil
  then show ?case by simp
next
  case (Cons e es)
  show ?case
  proof (cases "c = e")
    case True
    with Cons.prems have "c \<notin> set es" by simp
    then show ?thesis using True
      by (simp add: sent_broadcastLoop_notin isActive_def split: option.splits)
  next
    case False
    with Cons.prems have "distinct es" "c \<in> set es" by simp_all
    then show ?thesis using False Cons.IH
      by (simp add: isActive_def split: option.splits)
  qed
qed

lemma broadcastMessage_fields [simp]:
  "clients (broadcastMessage order m ex s) = clients s"
  "allowedUsernames (broadcastMessage order m ex s) = allowedUsernames s"
  "groups (broadcastMessage order m ex s) = groups s"
  "chatLog (broadcastMessage order m ex s) = chatLog s"
  "chatHistory (broadcastMessage order m ex s) = chatHistory s"
  "clock (broadcastMessage order m ex s) = clock s"
  by (simp_all add: broadcastMessage_def)

lemma isActive_dom: "isActive s c \<Longrightarrow> c \<in> dom (clients s)"
  by (auto simp: isActive_def split: option.splits)

lemma sent_broadcastMessage:
  assumes "rangeOrder order s"
  shows "sent (broadcastMessage order m ex s) c =
     (if isActive s c \<and> Some c \<noteq> ex then sent s c @ [ensureNewline m] else sent s c)"
proof (cases "c \<in> set order")
  case True
  then show ?thesis using assms
    by (simp add: broadcastMessage_def rangeOrder_def sent_broadcastLoop)
next
  case False
  then have "\<not> isActive s c" using assms isActive_dom by (auto simp: rangeOrder_def)
  then show ?thesis using False by (simp add: broadcastMessage_def sent_broadcastLoop_notin)
qed

lemma findActive_Some:
  "findActive order u cl = Some c \<Longrightarrow>
   c \<in> set order \<and> (\<exists>rc. cl c = Some rc \<and> active rc \<and> username rc = u)"
  by (induction order) (auto split: option.splits if_splits)

lemma findActive_None:
  "findActive order u cl = None \<Longrightarrow> e \<in> set order \<Longrightarrow> cl e = Some rc \<Longrightarrow>
   \<not> (active rc \<and> username rc = u)"
  by (induction order) (auto split: option.splits if_splits)

lemma usernameInUse_iff:
  "usernameInUse order c u cl \<longleftrightarrow>
   (\<exists>e \<in> set order. e \<noteq> c \<and> (\<exists>ex. cl e = Some ex \<and> active ex \<and> username ex = u))"
  by (induction order) (auto split: option.splits)


lemma SplitN_three:
  assumes "sep \<notin> set a" "sep \<notin> set r"
  shows "SplitN (a @ sep # r @ sep # t) sep 3 = [a, r, t]"
proof -
  have a1: "takeWhile (\<lambda>c. c \<noteq> sep) (a @ sep # r @ sep # t) = a"
    using assms(1) by (auto simp: takeWhile_tail)
  have a2: "dropWhile (\<lambda>c. c \<noteq> sep) (a @ sep # r @ sep # t) = sep # r @ sep # t"
    using assms(1) by (auto simp: dropWhile_append3)
  have r1: "takeWhile (\<lambda>c. c \<noteq> sep) (r @ sep # t) = r"
    using assms(2) by (auto simp: takeWhile_tail)
  have r2: "dropWhile (\<lambda>c. c \<noteq> sep) (r @ sep # t) = sep # t"
    using assms(2) by (auto simp: dropWhile_append3)
  show ?thesis
    by (simp add: numeral_3_eq_3 a1 a2 r1 r2)
qed

lemma malformed_three [simp]: "malformed [a, r, t] = (r = [] \<or> t = [])"
  by (simp add: malformed_def)

lemma deliverGroup_fields [simp]:
  "clients (deliverGroup ord i ms m s) = clients s"
  "allowedUsernames (deliverGroup ord i ms m s) = allowedUsernames s"
  "groups (deliverGroup ord i ms m s) = groups s"
  "chatLog (deliverGroup ord i ms m s) = chatLog s"
  "chatHistory (deliverGroup ord i ms m s) = chatHistory s"
  "clock (deliverGroup ord i ms m s) = clock s"
  by (induction ms arbitrary: s i; simp split: option.splits)+

lemma handleMessage_clients [simp]: "clients (handleMessage ord c u m s) = clients s"
  by (simp add: handleMessage_def Let_def split: option.splits)

lemma handleMessage_global:
  assumes "\<not> HasPrefix (TrimSpace m) ''PRIVMSG ''" "\<not> HasPrefix (TrimSpace m) ''GROUPMSG ''"
  shows "handleMessage ord c u m s =
     broadcastMessage (ord 0) (u @ '': '' @ m) None
       (addMessageToHistory (TrimSuffix (u @ '': '' @ m) [NL])
          (logChatMessage (TrimSuffix (u @ '': '' @ m) [NL]) s))"
  using assms by (simp add: handleMessage_def Let_def)

lemma handleMessage_dm:
  assumes "TrimSpace m = ''PRIVMSG '' @ r @ '' '' @ t" "r \<noteq> []" "CHR '' '' \<notin> set r" "t \<noteq> []"
  shows "handleMessage ord c u m s =
     (case findActive (ord 0) r (clients s) of
        Some rc \<Rightarrow>
          addMessageToHistory (dmLog u r t)
            (logChatMessage (dmLog u r t)
               (sendToClient c (dmToSender r t) (sendToClient rc (dmToRecipient u t) s)))
      | None \<Rightarrow> sendToClient c (userNotFound r) s)"
proof -
  have "SplitN (''PRIVMSG'' @ CHR '' '' # r @ CHR '' '' # t) (CHR '' '') 3 = [''PRIVMSG'', r, t]"
    using assms(3) by (intro SplitN_three) simp_all
  then have "SplitN (TrimSpace m) (CHR '' '') 3 = [''PRIVMSG'', r, t]"
    using assms(1) by simp
  moreover have "HasPrefix (TrimSpace m) ''PRIVMSG ''"
    using assms(1) by (simp add: HasPrefix_def)
  ultimately show ?thesis
    using assms(2,4) by (simp add: handleMessage_def Let_def)
qed

lemma handleMessage_gm:
  assumes "TrimSpace m = ''GROUPMSG '' @ g @ '' '' @ t" "g \<noteq> []" "CHR '' '' \<notin> set g" "t \<noteq> []"
  shows "handleMessage ord c u m s =
     (case groups s g of
        Some grp \<Rightarrow>
          addMessageToHistory (gmLog (name grp) u t)
            (logChatMessage (gmLog (name grp) u t)
               (sendToClient c (confirmationToSender (name grp) t)
                  (deliverGroup ord 0 (members grp) (gmToSend (name grp) u t) s)))
      | None \<Rightarrow> sendToClient c (groupNotFound g) s)"
proof -
  have "SplitN (''GROUPMSG'' @ CHR '' '' # g @ CHR '' '' # t) (CHR '' '') 3 = [''GROUPMSG'', g, t]"
    using assms(3) by (intro SplitN_three) simp_all
  then have "SplitN (TrimSpace m) (CHR '' '') 3 = [''GROUPMSG'', g, t]"
    using assms(1) by simp
  moreover have "HasPrefix (TrimSpace m) ''GROUPMSG ''" "\<not> HasPrefix (TrimSpace m) ''PRIVMSG ''"
    using assms(1) by (simp_all add: HasPrefix_def)
  ultimately show ?thesis
    using assms(2,4) by (simp add: handleMessage_def Let_def)
qed

lemma fold_sendToClient_fields [simp]:
  "clients (fold (sendToClient c) h s) = clients s"
  "allowedUsernames (fold (sendToClient c) h s) = allowedUsernames s"
  "groups (fold (sendToClient c) h s) = groups s"
  "chatLog (fold (sendToClient c) h s) = chatLog s"
  "chatHistory (fold (sendToClient c) h s) = chatHistory s"
  "clock (fold (sendToClient c) h s) = clock s"
  by (induction h arbitrary: s; simp)+

lemma sent_fold_sendToClient:
  "sent (fold (sendToClient c) h s) = (sent s)(c := sent s c @ map ensureNewline h)"
  by (induction h arbitrary: s) auto

lemma replayHistory_fields [simp]:
  "clients (replayHistory c s) = clients s"
  "allowedUsernames (replayHistory c s) = allowedUsernames s"
  "groups (replayHistory c s) = groups s"
  "chatLog (replayHistory c s) = chatLog s"
  "chatHistory (replayHistory c s) = chatHistory s"
  "clock (replayHistory c s) = clock s"
  by (simp_all add: replayHistory_def)

lemma sent_replayHistory:
  "sent (replayHistory c s) = (sent s)(c := sent s c @ replayLines (chatHistory s))"
  by (auto simp: replayHistory_def replayLines_def sent_fold_sendToClient ensureNewline_def
      HasSuffix_def)

lemma greet_fields [simp]:
  "clients (greet order c u s) = clients s"
  "allowedUsernames (greet order c u s) = allowedUsernames s"
  "groups (greet order c u s) = groups s"
  "clock (greet order c u s) = clock s"
  "chatLog (greet order c u s) = chatLog s @ [''['' @ clock s @ ''] '' @ ensureNewline (joinMsg u)]"
  "chatHistory (greet order c u s) = keepLast (chatHistory s @ [ensureNewline (joinMsg u)])"
  by (simp_all add: greet_def chatHistory_add)

lemma isActive_cong: "clients s' = clients s \<Longrightarrow> isActive s' = isActive s"
  by (simp add: isActive_def fun_eq_iff)

lemma sent_greet:
  assumes "rangeOrder order s"
  shows "sent (greet order c u s) e =
     (if e = c then sent s c @ [ensureNewline (welcomeMsg u)] @ replayLines (chatHistory s)
      else if isActive s e then sent s e @ [ensureNewline (joinMsg u)]
      else sent s e)"
proof -
  let ?s' = "addMessageToHistory (joinMsg u) (logChatMessage (joinMsg u)
       (replayHistory c (sendToClient c (welcomeMsg u) s)))"
  have c: "clients ?s' = clients s" by simp
  have r: "rangeOrder order ?s'" using assms by (simp add: rangeOrder_def)
  have a: "isActive ?s' = isActive s" by (rule isActive_cong) simp
  show ?thesis
    unfolding greet_def
    by (simp add: sent_broadcastMessage [OF r] a sent_replayHistory)
qed

lemma checkUsername_clients [simp]: "clients (fst (checkUsername order c l s)) = clients s"
  by (simp add: checkUsername_def Let_def)

lemma usernameInUse_rangeOrder:
  assumes "rangeOrder order s"
  shows "usernameInUse order c u (clients s) \<longleftrightarrow> (\<exists>e. e \<noteq> c \<and> activeAs s e u)"
proof -
  have "(\<exists>e \<in> set order. e \<noteq> c \<and> (\<exists>ex. clients s e = Some ex \<and> active ex \<and> username ex = u))
        \<longleftrightarrow> (\<exists>e. e \<noteq> c \<and> activeAs s e u)"
    using assms by (auto simp: rangeOrder_def activeAs_def split: option.splits)
  then show ?thesis by (simp add: usernameInUse_iff)
qed

lemma activate_fields [simp]:
  "clients (activate c u s) = (clients s)(c \<mapsto> \<lparr>username = u, active = True\<rparr>)"
  "allowedUsernames (activate c u s) = allowedUsernames s"
  "groups (activate c u s) = groups s"
  "chatLog (activate c u s) = chatLog s"
  "chatHistory (activate c u s) = chatHistory s"
  "sent (activate c u s) = sent s"
  "clock (activate c u s) = clock s"
  by (simp_all add: activate_def)

lemma HasSuffix_last: "HasSuffix m [c] \<longleftrightarrow> m \<noteq> [] \<and> last m = c"
proof (cases m rule: rev_cases)
  case Nil
  then show ?thesis by (simp add: HasSuffix_def)
next
  case (snoc ys y)
  then show ?thesis by (simp add: HasSuffix_def)
qed

lemma ensureNewline_last: "m \<noteq> [] \<Longrightarrow> last m \<noteq> NL \<Longrightarrow> ensureNewline m = m @ [NL]"
  by (simp add: ensureNewline_def HasSuffix_last)

lemma ensureNewline_msgs [simp]:
  "ensureNewline (welcomeMsg u) = welcomeMsg u @ [NL]"
  "ensureNewline (joinMsg u) = joinMsg u @ [NL]"
  "ensureNewline (leftMsg u) = leftMsg u @ [NL]"
  by (simp_all add: ensureNewline_last welcomeMsg_def joinMsg_def leftMsg_def)

lemma isActive_activate: "e \<noteq> c \<Longrightarrow> isActive (activate c u s) e = isActive s e"
  by (simp add: isActive_def)

lemma rangeOrder_activate:
  "c \<in> dom (clients s) \<Longrightarrow> rangeOrder order (activate c u s) = rangeOrder order s"
  by (auto simp: rangeOrder_def)

lemma login_Active:
  assumes "snd (login order c line s) = Active u"
  shows "login order c line s = (greet order c u (activate c u s), Active u)"
    and "checkUsername order c line s = (s, Checked u)"
  using assms
  by (auto simp: login_def checkUsername_def Let_def split: if_splits)

lemmas run_defs =
  login_def checkUsername_def Let_def isUsernameAllowed_def activate_def greet_def
  replayHistory_def broadcastMessage_def accept_def cleanup_def unregister_def depart_def
  initial_def sendToClient_def logChatMessage_def addMessageToHistory_def
  welcomeMsg_def joinMsg_def leftMsg_def ensureNewline_def trim_defs
  USERNAME_MAX_LEN_def MAX_HISTORY_LINES_def

lemma rejoining_eval:
  "rejoining =
     \<lparr>clients = [2 \<mapsto> \<lparr>username = [], active = False\<rparr>],
      allowedUsernames = {''alice''}, groups = Map.empty,
      chatHistory = [''System: alice has joined the chat.'' @ [NL],
                     ''System: alice has left the chat.'' @ [NL]],
      chatLog = [''[t] System: alice has joined the chat.'' @ [NL],
                 ''[t] System: alice has left the chat.'' @ [NL]],
      sent = (\<lambda>c. [])(1 := [''REQ_USERNAME'' @ [NL], ''Welcome, alice!'' @ [NL]],
                        2 := [''REQ_USERNAME'' @ [NL]]),
      clock = ''t''\<rparr>"
  by (simp add: rejoining_def run_defs fun_upd_twist)

lemma unregister_eq:
  "unregister c s =
     (case clients s c of
        Some cl \<Rightarrow> (s\<lparr>clients := (clients s)(c := None)\<rparr>,
                    if active cl
                    then Departing (if username cl = [] then ''[unauthenticated]'' else username cl)
                    else Closed)
      | None \<Rightarrow> (s, Closed))"
  by (simp add: unregister_def Let_def split: option.splits)

lemma depart_fields [simp]:
  "clients (depart order u s) = clients s"
  "allowedUsernames (depart order u s) = allowedUsernames s"
  "groups (depart order u s) = groups s"
  "clock (depart order u s) = clock s"
  "chatLog (depart order u s) = chatLog s @ [''['' @ clock s @ ''] '' @ leftMsg u @ [NL]]"
  "chatHistory (depart order u s) = keepLast (chatHistory s @ [leftMsg u @ [NL]])"
  by (simp_all add: depart_def chatHistory_add)

lemma sent_depart:
  assumes "rangeOrder order s"
  shows "sent (depart order u s) e = (if isActive s e then sent s e @ [leftMsg u @ [NL]] else sent s e)"
proof -
  let ?s' = "addMessageToHistory (leftMsg u) (logChatMessage (leftMsg u) s)"
  have r: "rangeOrder order ?s'" using assms by (simp add: rangeOrder_def)
  have a: "isActive ?s' = isActive s" by (rule isActive_cong) simp
  show ?thesis
    unfolding depart_def by (simp add: sent_broadcastMessage [OF r] a)
qed

lemma trailingSpace_TrimRight: "trailingSpace (TrimRight s) = None"
proof (induction s rule: TrimRight.induct)
  case (1 s)
  show ?case
  proof (cases "trailingSpace s")
    case None
    then show ?thesis by (simp add: TrimRight.simps)
  next
    case (Some w)
    with "1.IH" show ?thesis by (simp add: TrimRight.simps)
  qed
qed

lemma TrimSpace_last: "TrimSpace m \<noteq> [] \<Longrightarrow> last (TrimSpace m) \<noteq> NL"
proof
  assume ne: "TrimSpace m \<noteq> []" and l: "last (TrimSpace m) = NL"
  have "[NL] \<in> set whiteSpace" by (simp add: whiteSpace_def)
  moreover have "trailingSpace (TrimSpace m) = None"
    by (simp add: TrimSpace_def trailingSpace_TrimRight)
  ultimately have "\<not> HasSuffix (TrimSpace m) [NL]"
    by (auto simp: trailingSpace_def find_None_iff)
  with ne l show False by (simp add: HasSuffix_last)
qed

lemma TrimSpace_text:
  assumes "TrimSpace m = p @ t" "t \<noteq> []"
  shows "last t \<noteq> NL"
proof -
  from assms have "last (TrimSpace m) = last t" "TrimSpace m \<noteq> []" by simp_all
  with TrimSpace_last [of m] show ?thesis by simp
qed

lemma ensureNewline_text:
  assumes "t \<noteq> []" "last t \<noteq> NL"
  shows "ensureNewline (dmToRecipient u t) = dmToRecipient u t @ [NL]"
    "ensureNewline (dmToSender r t) = dmToSender r t @ [NL]"
    "ensureNewline (dmLog u r t) = dmLog u r t @ [NL]"
    "ensureNewline (gmToSend g u t) = gmToSend g u t @ [NL]"
    "ensureNewline (confirmationToSender g t) = confirmationToSender g t @ [NL]"
    "ensureNewline (gmLog g u t) = gmLog g u t @ [NL]"
  using assms
  by (simp_all add: ensureNewline_last dmToRecipient_def dmToSender_def dmLog_def gmToSend_def
      confirmationToSender_def gmLog_def)

lemma ensureNewline_replies [simp]:
  "ensureNewline (userNotFound r) = userNotFound r @ [NL]"
  "ensureNewline (groupNotFound g) = groupNotFound g @ [NL]"
  "ensureNewline invalidDM = invalidDM @ [NL]"
  "ensureNewline invalidGM = invalidGM @ [NL]"
  by (simp_all add: ensureNewline_last userNotFound_def groupNotFound_def invalidDM_def
      invalidGM_def)

lemma ensureNewline_global:
  assumes "NL \<notin> set body"
  shows "ensureNewline (TrimSuffix (u @ '': '' @ body @ [NL]) [NL]) = u @ '': '' @ body @ [NL]"
proof -
  have "TrimSuffix (u @ '': '' @ body @ [NL]) [NL] = u @ '': '' @ body"
    using TrimSuffix_snoc [of "u @ '': '' @ body" NL] by simp
  moreover have "last (u @ '': '' @ body) \<noteq> NL"
    using assms by (cases body rule: rev_cases) auto
  ultimately show ?thesis by (simp add: ensureNewline_last)
qed

lemma findActive_activeAs:
  assumes "rangeOrder order s"
  shows "findActive order u (clients s) = None \<longleftrightarrow> (\<forall>e. \<not> activeAs s e u)"
    and "findActive order u (clients s) = Some rc \<Longrightarrow> activeAs s rc u"
proof -
  show "findActive order u (clients s) = Some rc \<Longrightarrow> activeAs s rc u"
    by (auto dest: findActive_Some simp: activeAs_def)
  show "findActive order u (clients s) = None \<longleftrightarrow> (\<forall>e. \<not> activeAs s e u)"
  proof
    assume n: "findActive order u (clients s) = None"
    show "\<forall>e. \<not> activeAs s e u"
    proof
      fix e
      show "\<not> activeAs s e u"
      proof (cases "clients s e")
        case None
        then show ?thesis by (simp add: activeAs_def)
      next
        case (Some rc)
        then have "e \<in> set order" using assms by (auto simp: rangeOrder_def)
        from findActive_None [OF n this Some] show ?thesis by (simp add: activeAs_def Some)
      qed
    qed
  next
    assume a: "\<forall>e. \<not> activeAs s e u"
    show "findActive order u (clients s) = None"
    proof (cases "findActive order u (clients s)")
      case None
      then show ?thesis .
    next
      case (Some rc)
      then have "activeAs s rc u" by (auto dest: findActive_Some simp: activeAs_def)
      with a show ?thesis by simp
    qed
  qed
qed

lemmas message_defs =
  handleMessage_def malformed_def dmToRecipient_def dmToSender_def dmLog_def userNotFound_def
  gmToSend_def confirmationToSender_def gmLog_def groupNotFound_def invalidDM_def invalidGM_def
  HasPrefix_def TrimSuffix_def numeral_3_eq_3

lemma handleMessage_global_effect:
  assumes "rangeOrder (ord 0) s"
    and "\<not> HasPrefix (TrimSpace (body @ [NL])) ''PRIVMSG ''"
    and "\<not> HasPrefix (TrimSpace (body @ [NL])) ''GROUPMSG ''"
    and "NL \<notin> set body"
  shows "(\<forall>e. sent (handleMessage ord c u (body @ [NL]) s) e
            = (if isActive s e then sent s e @ [u @ '': '' @ body @ [NL]] else sent s e))
       \<and> chatLog (handleMessage ord c u (body @ [NL]) s)
            = chatLog s @ [''['' @ clock s @ ''] '' @ u @ '': '' @ body @ [NL]]
       \<and> chatHistory (handleMessage ord c u (body @ [NL]) s)
            = keepLast (chatHistory s @ [u @ '': '' @ body @ [NL]])
       \<and> clients (handleMessage ord c u (body @ [NL]) s) = clients s"
proof -
  let ?g = "u @ '': '' @ body @ [NL]"
  let ?s' = "addMessageToHistory (TrimSuffix ?g [NL]) (logChatMessage (TrimSuffix ?g [NL]) s)"
  have h: "handleMessage ord c u (body @ [NL]) s = broadcastMessage (ord 0) ?g None ?s'"
    using handleMessage_global [OF assms(2,3)] by simp
  have r: "rangeOrder (ord 0) ?s'" using assms(1) by (simp add: rangeOrder_def)
  have a: "isActive ?s' = isActive s" by (rule isActive_cong) simp
  have e: "ensureNewline ?g = ?g"
    using ensureNewline_snoc [of "u @ '': '' @ body"] by simp
  note t = ensureNewline_global [OF assms(4), of u]
  show ?thesis
    unfolding h
    by (simp only: sent_broadcastMessage [OF r] a e broadcastMessage_fields
        addMessageToHistory_fields logChatMessage_fields chatHistory_add t)
       simp
qed

lemma isLine_snoc: "isLine m \<Longrightarrow> \<exists>body. m = body @ [NL] \<and> NL \<notin> set body"
proof -
  assume "isLine m"
  then have "m = butlast m @ [NL]" "NL \<notin> set (butlast m)"
    using append_butlast_last_id [of m] by (auto simp: isLine_def)
  then show ?thesis by blast
qed

lemma accept_fields [simp]:
  "clients (accept c s) = (clients s)(c \<mapsto> \<lparr>username = [], active = False\<rparr>)"
  "allowedUsernames (accept c s) = allowedUsernames s"
  "groups (accept c s) = groups s"
  "chatLog (accept c s) = chatLog s"
  "chatHistory (accept c s) = chatHistory s"
  "clock (accept c s) = clock s"
  by (simp_all add: accept_def)

lemma checkUsername_cases:
  assumes "checkUsername order c l s = (s', p)"
  shows "clients s' = clients s \<and> (p = Closing \<or> (\<exists>u. p = Checked u \<and> u \<noteq> []))"
  using assms by (auto simp: checkUsername_def Let_def split: if_splits)

lemma unregister_cases:
  assumes "unregister c s = (s', p)"
  shows "clients s' = (clients s)(c := None) \<and> (p = Closed \<or> (\<exists>u. p = Departing u))"
  using assms by (auto simp: unregister_eq split: option.splits if_splits)

lemma step_entryFor:
  assumes "step (s, ph) (s', ph')" and inv: "\<And>c. entryFor (ph c) (clients s c)"
  shows "entryFor (ph' c) (clients s' c)"
  using assms(1)
proof cases
  case (Accept d)
  then show ?thesis using inv [of c] by simp
next
  case (RecvUsername d order usernameLine p)
  from checkUsername_cases [OF RecvUsername(5)] RecvUsername(1,2) inv [of c] inv [of d]
  show ?thesis by auto
next
  case (Activate d u)
  then show ?thesis using inv [of c] inv [of d] by auto
next
  case (Greet d u order)
  then show ?thesis using inv [of c] inv [of d] by auto
next
  case (RecvLine d u ord message)
  then show ?thesis using inv [of c] by simp
next
  case (ReadErrorUsername d)
  then show ?thesis using inv [of c] inv [of d] by auto
next
  case (ReadErrorLine d u)
  then show ?thesis using inv [of c] inv [of d] by auto
next
  case (UnregisterClosing d p)
  from unregister_cases [OF UnregisterClosing(3)] UnregisterClosing(1,2) inv [of c] inv [of d]
  show ?thesis by auto
next
  case (UnregisterLeaving d u p)
  from unregister_cases [OF UnregisterLeaving(3)] UnregisterLeaving(1,2) inv [of c] inv [of d]
  show ?thesis by auto
next
  case (Depart d u order)
  then show ?thesis using inv [of c] inv [of d] by auto
next
  case (Tick t)
  then show ?thesis using inv [of c] by simp
qed

lemma reachable_entryFor: "reachable cfg \<Longrightarrow> entryFor (snd cfg c) (clients (fst cfg) c)"
proof (induction arbitrary: c rule: reachable.induct)
  case (Init al gr t)
  show ?case by (simp add: initial_def)
next
  case (Step cfg cfg')
  obtain s ph s' ph' where cfg: "cfg = (s, ph)" "cfg' = (s', ph')"
    by (cases cfg, cases cfg')
  from Step.hyps(2) Step.IH show ?case
    unfolding cfg by (simp add: step_entryFor)
qed

lemma raceStart_reachable:
  "reachable (raceStart, (\<lambda>c. Idle)(1 := AwaitingUsername, 2 := AwaitingUsername))"
proof -
  let ?i = "initial {''alice''} Map.empty ''t''"
  have "reachable (?i, (\<lambda>c. Idle))" by (rule reachable.Init)
  then have "reachable (accept 1 ?i, (\<lambda>c. Idle)(1 := AwaitingUsername))"
    by (rule reachable.Step) (simp add: step.Accept)
  then have "reachable (accept 2 (accept 1 ?i),
      (\<lambda>c. Idle)(1 := AwaitingUsername, 2 := AwaitingUsername))"
    by (rule reachable.Step) (simp add: step.Accept)
  then show ?thesis by (simp add: raceStart_def)
qed

lemma raceStart_fields:
  "clients raceStart = [1 \<mapsto> \<lparr>username = [], active = False\<rparr>,
                        2 \<mapsto> \<lparr>username = [], active = False\<rparr>]"
  "allowedUsernames raceStart = {''alice''}"
  by (simp_all add: raceStart_def initial_def)

lemma raceStart_check:
  "checkUsername [1, 2] 1 (''alice'' @ [NL]) raceStart = (raceStart, Checked ''alice'')"
  "checkUsername [1, 2] 2 (''alice'' @ [NL]) raceStart = (raceStart, Checked ''alice'')"
  by (simp_all add: checkUsername_def Let_def trim_defs USERNAME_MAX_LEN_def
      isUsernameAllowed_def raceStart_fields)

lemma raceEnd_reachable:
  "reachable (raceEnd, (\<lambda>c. Idle)(1 := Active ''alice'', 2 := Active ''alice''))"
proof -
  let ?a = "''alice''"
  let ?p0 = "(\<lambda>c::conn. Idle)(1 := AwaitingUsername, 2 := AwaitingUsername)"
  have r0: "rangeOrder [1, 2] raceStart"
    by (auto simp: rangeOrder_def raceStart_fields)
  have l: "isLine (''alice'' @ [NL])"
    by (simp add: isLine_def)
  from raceStart_reachable
  have "reachable (raceStart, ?p0(1 := Checked ?a))"
    by (rule reachable.Step) (rule step.RecvUsername [OF _ l r0 raceStart_check(1)], simp)
  then have "reachable (raceStart, ?p0(1 := Checked ?a, 2 := Checked ?a))"
    by (rule reachable.Step) (rule step.RecvUsername [OF _ l r0 raceStart_check(2)], simp)
  then have "reachable (activate 1 ?a raceStart,
      ?p0(1 := Checked ?a, 2 := Checked ?a, 1 := Welcoming ?a))"
    by (rule reachable.Step) (rule step.Activate, simp)
  then have "reachable (activate 2 ?a (activate 1 ?a raceStart),
      ?p0(1 := Checked ?a, 2 := Checked ?a, 1 := Welcoming ?a, 2 := Welcoming ?a))"
    by (rule reachable.Step) (rule step.Activate, simp)
  then have "reachable (greet [1, 2] 1 ?a (activate 2 ?a (activate 1 ?a raceStart)),
      ?p0(1 := Checked ?a, 2 := Checked ?a, 1 := Welcoming ?a, 2 := Welcoming ?a,
          1 := Active ?a))"
    by (rule reachable.Step)
      (rule step.Greet, simp, auto simp: rangeOrder_def raceStart_fields)
  then have "reachable (greet [1, 2] 2 ?a (greet [1, 2] 1 ?a
        (activate 2 ?a (activate 1 ?a raceStart))),
      ?p0(1 := Checked ?a, 2 := Checked ?a, 1 := Welcoming ?a, 2 := Welcoming ?a,
          1 := Active ?a, 2 := Active ?a))"
    by (rule reachable.Step)
      (rule step.Greet, simp, auto simp: rangeOrder_def raceStart_fields)
  moreover have "?p0(1 := Checked ?a, 2 := Checked ?a, 1 := Welcoming ?a, 2 := Welcoming ?a,
          1 := Active ?a, 2 := Active ?a) = (\<lambda>c::conn. Idle)(1 := Active ?a, 2 := Active ?a)"
    by (auto simp: fun_eq_iff)
  ultimately show ?thesis by (simp add: raceEnd_def)
qed

lemma paddedLine_trim: "TrimSpace paddedLine = ''bob''"
  by code_simp

lemma lateComer_reachable:
  "reachable (lateComer, (\<lambda>c. Idle)(1 := Leaving ''alice'', 2 := Closing))"
proof -
  let ?a = "''alice''"
  let ?i = "initial {''alice''} Map.empty ''t''"
  let ?s1 = "accept 1 ?i"
  let ?s2 = "greet [1] 1 ?a (activate 1 ?a ?s1)"
  let ?s3 = "accept 2 ?s2"
  let ?p = "\<lambda>c::conn. Idle"
  have l: "isLine (?a @ [NL])" by (simp add: isLine_def)
  have c1: "checkUsername [1] 1 (?a @ [NL]) ?s1 = (?s1, Checked ?a)"
    by (simp add: checkUsername_def Let_def trim_defs USERNAME_MAX_LEN_def
        isUsernameAllowed_def initial_def)
  have c2: "checkUsername [1, 2] 2 (?a @ [NL]) ?s3 = (lateComer, Closing)"
    by (simp add: checkUsername_def Let_def trim_defs USERNAME_MAX_LEN_def
        isUsernameAllowed_def initial_def lateComer_def)
  have "reachable (?i, ?p)" by (rule reachable.Init)
  then have "reachable (?s1, ?p(1 := AwaitingUsername))"
    by (rule reachable.Step) (simp add: step.Accept)
  then have "reachable (?s1, ?p(1 := AwaitingUsername, 1 := Checked ?a))"
    by (rule reachable.Step)
      (rule step.RecvUsername [OF _ l _ c1], simp, auto simp: rangeOrder_def initial_def)
  then have "reachable (activate 1 ?a ?s1,
      ?p(1 := AwaitingUsername, 1 := Checked ?a, 1 := Welcoming ?a))"
    by (rule reachable.Step) (rule step.Activate, simp)
  then have "reachable (?s2,
      ?p(1 := AwaitingUsername, 1 := Checked ?a, 1 := Welcoming ?a, 1 := Active ?a))"
    by (rule reachable.Step)
      (rule step.Greet, simp, auto simp: rangeOrder_def initial_def)
  then have "reachable (?s2, ?p(1 := Active ?a))" by simp
  then have "reachable (?s3, ?p(1 := Active ?a, 2 := AwaitingUsername))"
    by (rule reachable.Step) (simp add: step.Accept)
  then have "reachable (lateComer, ?p(1 := Active ?a, 2 := AwaitingUsername, 2 := Closing))"
    by (rule reachable.Step)
      (rule step.RecvUsername [OF _ l _ c2], simp, auto simp: rangeOrder_def initial_def)
  then have "reachable (lateComer, ?p(1 := Active ?a, 2 := AwaitingUsername, 2 := Closing,
      1 := Leaving ?a))"
    by (rule reachable.Step) (rule step.ReadErrorLine [of _ _ ?a], simp)
  moreover have "?p(1 := Active ?a, 2 := AwaitingUsername, 2 := Closing, 1 := Leaving ?a)
      = ?p(1 := Leaving ?a, 2 := Closing)"
    by (auto simp: fun_eq_iff)
  ultimately show ?thesis by simp
qed

section \<open>The claims\<close>

subsection \<open>C1: Uniqueness of Active usernames\<close>

text \<open>
  C1 asks that in every reachable state at most one Active session exists per username. The
  check for a username in use and the registration are two critical sections of
  \<^verbatim>\<open>clientsMutex\<close>: when two connections send the same allowed username and both checks
  run before either registration, both pass, and a state is reached in which both sessions
  are registered as Active under that username.
\<close>

theorem duplicate_username_race:
  "checkUsername [1, 2] 1 (''alice'' @ [NL]) raceStart = (raceStart, Checked ''alice'')
   \<and> checkUsername [1, 2] 2 (''alice'' @ [NL]) raceStart = (raceStart, Checked ''alice'')
   \<and> reachable (raceEnd, (\<lambda>c. Idle)(1 := Active ''alice'', 2 := Active ''alice''))
   \<and> clients raceEnd 1 = Some \<lparr>username = ''alice'', active = True\<rparr>
   \<and> clients raceEnd 2 = Some \<lparr>username = ''alice'', active = True\<rparr>"
  using raceStart_check raceEnd_reachable by (simp add: raceEnd_def)

subsection \<open>C2: Membership of the registry\<close>

text \<open>
  C2 as stated fails: once a connection is accepted, its session is a member of the registry
  with \<^verbatim>\<open>active\<close> unset, before it has sent any username.
\<close>

theorem pending_session_counterexample:
  "reachable (raceStart, (\<lambda>c. Idle)(1 := AwaitingUsername, 2 := AwaitingUsername))
   \<and> clients raceStart 1 = Some \<lparr>username = [], active = False\<rparr>
   \<and> \<not> isActive raceStart 1"
  using raceStart_reachable by (simp add: raceStart_fields isActive_def)

text \<open>
  C2, amended. In every reachable state a session is absent from the registry before its
  connection is accepted and after the deferred function has deleted it, and present in
  between. It is present with \<^verbatim>\<open>active\<close> unset and an empty username from the accept
  until the handshake succeeds, or, when the handshake ends in a rejection or a read error,
  until the deletion: a session in a pre-handshake state is a member of the registry. It is
  present with \<^verbatim>\<open>active\<close> set and its username, which is not empty, from the registration
  until the deletion, in the message loop and after the loop has ended.
\<close>

theorem registry_entries:
  assumes "reachable (s, ph)"
  shows "(clients s c = None \<longleftrightarrow> ph c = Idle \<or> ph c = Closed \<or> (\<exists>u. ph c = Departing u))
       \<and> (ph c = AwaitingUsername \<or> (\<exists>u. ph c = Checked u) \<or> ph c = Closing \<longrightarrow>
            clients s c = Some \<lparr>username = [], active = False\<rparr>)
       \<and> (\<forall>u. ph c = Welcoming u \<or> ph c = Active u \<or> ph c = Leaving u \<longrightarrow>
            clients s c = Some \<lparr>username = u, active = True\<rparr> \<and> u \<noteq> [])"
  using reachable_entryFor [OF assms, of c] by (cases "ph c") auto

text \<open>
  The instance of the amended C2 on a state in which \<open>alice\<close> has left the message loop
  and a rejected connection waits for its cleanup.
\<close>

theorem registry_entries_witness:
  "reachable (lateComer, (\<lambda>c. Idle)(1 := Leaving ''alice'', 2 := Closing))
   \<and> clients lateComer 1 = Some \<lparr>username = ''alice'', active = True\<rparr>
   \<and> clients lateComer 2 = Some \<lparr>username = [], active = False\<rparr>
   \<and> clients lateComer 3 = None"
  using lateComer_reachable registry_entries [OF lateComer_reachable, of 1]
    registry_entries [OF lateComer_reachable, of 2]
    registry_entries [OF lateComer_reachable, of 3]
  by simp

subsection \<open>C3: The checks of the handshake\<close>

text \<open>
  C3 as stated fails on the length of the line: the line of \<open>bob\<close> and 50 spaces has
  53 bytes before its terminator, and the session becomes Active under the username
  \<open>bob\<close>.
\<close>

theorem padded_username_counterexample:
  "USERNAME_MAX_LEN \<le> length paddedLine
   \<and> snd (login [1, 2] 2 paddedLine lobby) = Active ''bob''
   \<and> activeAs (fst (login [1, 2] 2 paddedLine lobby)) 2 ''bob''"
proof -
  have "USERNAME_MAX_LEN \<le> length paddedLine"
    by (simp add: paddedLine_def USERNAME_MAX_LEN_def)
  moreover have "checkUsername [1, 2] 2 paddedLine lobby = (lobby, Checked ''bob'')"
    by (simp add: checkUsername_def Let_def paddedLine_trim USERNAME_MAX_LEN_def
        isUsernameAllowed_def lobby_def)
  then have "snd (login [1, 2] 2 paddedLine lobby) = Active ''bob''"
    "activeAs (fst (login [1, 2] 2 paddedLine lobby)) 2 ''bob''"
    by (simp_all add: login_def activeAs_def)
  ultimately show ?thesis by simp
qed

text \<open>
  C3, amended. The handshake checks the username, which is the received line without its
  leading and trailing white space (the terminator included), in four steps, and the first
  check that fails decides. An empty username is answered with \<^verbatim>\<open>BAD_USERNAME\<close> and the
  reason \<^verbatim>\<open>Username cannot be empty.\<close>; a username of \<^verbatim>\<open>USERNAME_MAX_LEN\<close> = 50 bytes
  or more with \<^verbatim>\<open>BAD_USERNAME\<close> and \<^verbatim>\<open>Username too long.\<close>; a username that is
  not on the allow-list with \<^verbatim>\<open>NOT_ALLOWED\<close> and
  \<^verbatim>\<open>Username not on allowed list.\<close>; a username that another session holds as Active
  with \<^verbatim>\<open>BAD_USERNAME\<close> and \<^verbatim>\<open>Username already in use.\<close>. Each of these replies is
  written to the connection, the registry stays as it is, and the handler returns, which
  closes the connection. The session becomes Active exactly when the username passes all
  four checks, and then under that username.
\<close>

theorem handshake_checks:
  assumes "rangeOrder order s"
  shows "(TrimSpace line = [] \<longrightarrow>
            sent (fst (login order c line s))
              = (sent s)(c := sent s c
                   @ [''BAD_USERNAME'' @ [NL] @ ''Username cannot be empty.'' @ [NL]])
            \<and> snd (login order c line s) = Closing
            \<and> clients (fst (login order c line s)) = clients s)
     \<and> (TrimSpace line \<noteq> [] \<and> USERNAME_MAX_LEN \<le> length (TrimSpace line) \<longrightarrow>
            sent (fst (login order c line s))
              = (sent s)(c := sent s c
                   @ [''BAD_USERNAME'' @ [NL] @ ''Username too long.'' @ [NL]])
            \<and> snd (login order c line s) = Closing
            \<and> clients (fst (login order c line s)) = clients s)
     \<and> (TrimSpace line \<noteq> [] \<and> length (TrimSpace line) < USERNAME_MAX_LEN
          \<and> TrimSpace line \<notin> allowedUsernames s \<longrightarrow>
            sent (fst (login order c line s))
              = (sent s)(c := sent s c
                   @ [''NOT_ALLOWED'' @ [NL] @ ''Username not on allowed list.'' @ [NL]])
            \<and> snd (login order c line s) = Closing
            \<and> clients (fst (login order c line s)) = clients s)
     \<and> (TrimSpace line \<noteq> [] \<and> length (TrimSpace line) < USERNAME_MAX_LEN
          \<and> TrimSpace line \<in> allowedUsernames s
          \<and> (\<exists>e. e \<noteq> c \<and> activeAs s e (TrimSpace line)) \<longrightarrow>
            sent (fst (login order c line s))
              = (sent s)(c := sent s c
                   @ [''BAD_USERNAME'' @ [NL] @ ''Username already in use.'' @ [NL]])
            \<and> snd (login order c line s) = Closing
            \<and> clients (fst (login order c line s)) = clients s)
     \<and> ((\<exists>u. snd (login order c line s) = Active u) \<longleftrightarrow>
            TrimSpace line \<noteq> [] \<and> length (TrimSpace line) < USERNAME_MAX_LEN
            \<and> TrimSpace line \<in> allowedUsernames s
            \<and> \<not> (\<exists>e. e \<noteq> c \<and> activeAs s e (TrimSpace line)))
     \<and> (\<forall>u. snd (login order c line s) = Active u \<longrightarrow>
            u = TrimSpace line \<and> activeAs (fst (login order c line s)) c u)
     \<and> USERNAME_MAX_LEN = 50"
proof -
  note inuse = usernameInUse_rangeOrder [OF assms]
  let ?u = "TrimSpace line"
  have empty: "?u = [] \<longrightarrow>
            sent (fst (login order c line s))
              = (sent s)(c := sent s c
                   @ [''BAD_USERNAME'' @ [NL] @ ''Username cannot be empty.'' @ [NL]])
            \<and> snd (login order c line s) = Closing
            \<and> clients (fst (login order c line s)) = clients s"
    by (simp add: login_def checkUsername_def Let_def ensureNewline_def HasSuffix_def)
  have long: "?u \<noteq> [] \<and> USERNAME_MAX_LEN \<le> length ?u \<longrightarrow>
            sent (fst (login order c line s))
              = (sent s)(c := sent s c
                   @ [''BAD_USERNAME'' @ [NL] @ ''Username too long.'' @ [NL]])
            \<and> snd (login order c line s) = Closing
            \<and> clients (fst (login order c line s)) = clients s"
    by (simp add: login_def checkUsername_def Let_def ensureNewline_def HasSuffix_def)
  have notAllowed: "?u \<noteq> [] \<and> length ?u < USERNAME_MAX_LEN \<and> ?u \<notin> allowedUsernames s \<longrightarrow>
            sent (fst (login order c line s))
              = (sent s)(c := sent s c
                   @ [''NOT_ALLOWED'' @ [NL] @ ''Username not on allowed list.'' @ [NL]])
            \<and> snd (login order c line s) = Closing
            \<and> clients (fst (login order c line s)) = clients s"
    by (simp add: login_def checkUsername_def Let_def isUsernameAllowed_def
        ensureNewline_def HasSuffix_def)
  have used: "?u \<noteq> [] \<and> length ?u < USERNAME_MAX_LEN \<and> ?u \<in> allowedUsernames s
          \<and> (\<exists>e. e \<noteq> c \<and> activeAs s e ?u) \<longrightarrow>
            sent (fst (login order c line s))
              = (sent s)(c := sent s c
                   @ [''BAD_USERNAME'' @ [NL] @ ''Username already in use.'' @ [NL]])
            \<and> snd (login order c line s) = Closing
            \<and> clients (fst (login order c line s)) = clients s"
    by (simp add: login_def checkUsername_def Let_def isUsernameAllowed_def inuse
        ensureNewline_def HasSuffix_def)
  have active: "(\<exists>u. snd (login order c line s) = Active u) \<longleftrightarrow>
            ?u \<noteq> [] \<and> length ?u < USERNAME_MAX_LEN \<and> ?u \<in> allowedUsernames s
            \<and> \<not> (\<exists>e. e \<noteq> c \<and> activeAs s e ?u)"
    by (auto simp: login_def checkUsername_def Let_def isUsernameAllowed_def inuse)
  have name: "\<forall>u. snd (login order c line s) = Active u \<longrightarrow>
            u = ?u \<and> activeAs (fst (login order c line s)) c u"
    by (auto simp: login_def checkUsername_def Let_def activeAs_def)
  have max: "USERNAME_MAX_LEN = 50" by (simp add: USERNAME_MAX_LEN_def)
  show ?thesis
    by (intro conjI empty long notAllowed used active name max)
qed

text \<open>
  The instance of the amended C3 on the registry \<open>lobby\<close>: an empty line, a name that is
  not allowed, the name of the Active session, and a name that passes.
\<close>

theorem handshake_checks_witness:
  "rangeOrder [1, 2] lobby
   \<and> sent (fst (login [1, 2] 2 [NL] lobby)) 2
       = [''BAD_USERNAME'' @ [NL] @ ''Username cannot be empty.'' @ [NL]]
   \<and> snd (login [1, 2] 2 [NL] lobby) = Closing
   \<and> sent (fst (login [1, 2] 2 (''carol'' @ [NL]) lobby)) 2
       = [''NOT_ALLOWED'' @ [NL] @ ''Username not on allowed list.'' @ [NL]]
   \<and> snd (login [1, 2] 2 (''carol'' @ [NL]) lobby) = Closing
   \<and> sent (fst (login [1, 2] 2 (''alice'' @ [NL]) lobby)) 2
       = [''BAD_USERNAME'' @ [NL] @ ''Username already in use.'' @ [NL]]
   \<and> snd (login [1, 2] 2 (''alice'' @ [NL]) lobby) = Closing
   \<and> snd (login [1, 2] 2 (''bob'' @ [NL]) lobby) = Active ''bob''"
proof -
  have r: "rangeOrder [1, 2] lobby"
    by (auto simp: rangeOrder_def lobby_def)
  have "activeAs lobby 1 ''alice''"
    by (simp add: activeAs_def lobby_def)
  then have a1: "\<exists>e. e \<noteq> 2 \<and> activeAs lobby e ''alice''"
    by (intro exI [of _ 1]) simp
  have a2: "\<not> (\<exists>e. e \<noteq> 2 \<and> activeAs lobby e ''bob'')"
    by (simp add: activeAs_def lobby_def)
  have al: "allowedUsernames lobby = {''alice'', ''bob''}" and se: "sent lobby 2 = []"
    by (simp_all add: lobby_def)
  have t: "TrimSpace [NL] = []" "TrimSpace (''carol'' @ [NL]) = ''carol''"
    "TrimSpace (''alice'' @ [NL]) = ''alice''" "TrimSpace (''bob'' @ [NL]) = ''bob''"
    by (simp_all add: trim_defs)
  have e1: "sent (fst (login [1, 2] 2 [NL] lobby)) 2
       = [''BAD_USERNAME'' @ [NL] @ ''Username cannot be empty.'' @ [NL]]
     \<and> snd (login [1, 2] 2 [NL] lobby) = Closing"
    using handshake_checks [OF r, of "[NL]" 2, THEN conjunct1]
    unfolding t by (simp add: se)
  have e2: "sent (fst (login [1, 2] 2 (''carol'' @ [NL]) lobby)) 2
       = [''NOT_ALLOWED'' @ [NL] @ ''Username not on allowed list.'' @ [NL]]
     \<and> snd (login [1, 2] 2 (''carol'' @ [NL]) lobby) = Closing"
    using handshake_checks [OF r, of "''carol'' @ [NL]" 2,
        THEN conjunct2, THEN conjunct2, THEN conjunct1]
    unfolding t by (simp add: al se USERNAME_MAX_LEN_def)
  have e3: "sent (fst (login [1, 2] 2 (''alice'' @ [NL]) lobby)) 2
       = [''BAD_USERNAME'' @ [NL] @ ''Username already in use.'' @ [NL]]
     \<and> snd (login [1, 2] 2 (''alice'' @ [NL]) lobby) = Closing"
    using handshake_checks [OF r, of "''alice'' @ [NL]" 2,
        THEN conjunct2, THEN conjunct2, THEN conjunct2, THEN conjunct1] a1
    unfolding t by (simp add: al se USERNAME_MAX_LEN_def)
  have e4: "snd (login [1, 2] 2 (''bob'' @ [NL]) lobby) = Active ''bob''"
  proof -
    note h = handshake_checks [OF r, of "''bob'' @ [NL]" 2]
    from h a2 obtain u where u: "snd (login [1, 2] 2 (''bob'' @ [NL]) lobby) = Active u"
      unfolding t by (auto simp: al USERNAME_MAX_LEN_def)
    with h have "u = TrimSpace (''bob'' @ [NL])" by blast
    with u t show ?thesis by simp
  qed
  show ?thesis
    using r e1 e2 e3 e4 by simp
qed

subsection \<open>C4: The bound of the history buffer\<close>

text \<open>
  C4. Whatever lines are appended, the history buffer holds at most
  \<^verbatim>\<open>MAX_HISTORY_LINES\<close> = 20 entries. An append to a buffer with room adds the
  newline-terminated line at the end; an append to a full buffer drops the oldest entry and
  adds the line at the end. After 25 appends to the empty buffer the buffer has exactly 20
  entries: the last 20 appended lines, newline-terminated, in the order of the appends.
\<close>

theorem history_bound:
  "length (chatHistory (fold addMessageToHistory ms (initial al gr t))) \<le> MAX_HISTORY_LINES
   \<and> MAX_HISTORY_LINES = 20
   \<and> (length (chatHistory s) < MAX_HISTORY_LINES \<longrightarrow>
        chatHistory (addMessageToHistory m s) = chatHistory s @ [ensureNewline m])
   \<and> (length (chatHistory s) = MAX_HISTORY_LINES \<longrightarrow>
        chatHistory (addMessageToHistory m s) = tl (chatHistory s) @ [ensureNewline m])
   \<and> (length ms = MAX_HISTORY_LINES + 5 \<longrightarrow>
        length (chatHistory (fold addMessageToHistory ms (initial al gr t))) = 20
        \<and> chatHistory (fold addMessageToHistory ms (initial al gr t))
            = map ensureNewline (drop 5 ms))"
proof -
  let ?h = "chatHistory (fold addMessageToHistory ms (initial al gr t))"
  have fold_eq: "?h = keepLast (map ensureNewline ms)"
    by (simp add: chatHistory_fold initial_def)
  have bound: "length ?h \<le> MAX_HISTORY_LINES"
    by (simp add: fold_eq length_keepLast)
  have room: "chatHistory (addMessageToHistory m s) = chatHistory s @ [ensureNewline m]"
    if "length (chatHistory s) < MAX_HISTORY_LINES"
    using that by (simp add: chatHistory_add keepLast_def)
  have evict: "chatHistory (addMessageToHistory m s) = tl (chatHistory s) @ [ensureNewline m]"
    if "length (chatHistory s) = MAX_HISTORY_LINES"
  proof -
    from that have "chatHistory s \<noteq> []" by (auto simp: MAX_HISTORY_LINES_def)
    then show ?thesis
      using that by (simp add: chatHistory_add keepLast_def drop_Suc tl_append2 MAX_HISTORY_LINES_def)
  qed
  have last20: "length ?h = 20 \<and> ?h = map ensureNewline (drop 5 ms)"
    if "length ms = MAX_HISTORY_LINES + 5"
    using that by (simp add: fold_eq keepLast_def drop_map MAX_HISTORY_LINES_def)
  show ?thesis
    using bound room evict last20 by (simp add: MAX_HISTORY_LINES_def)
qed

text \<open>
  The instance of C4: one append to a full buffer, and 25 appends to the empty buffer.
\<close>

theorem history_bound_witness:
  "length (chatHistory fullHistory) = MAX_HISTORY_LINES
   \<and> chatHistory (addMessageToHistory ''u'' fullHistory)
        = map (\<lambda>c. [c, NL]) ''bcdefghijklmnopqrstu''
   \<and> length lines25 = MAX_HISTORY_LINES + 5
   \<and> chatHistory (fold addMessageToHistory lines25 (initial {} Map.empty []))
        = map (\<lambda>c. [c, NL]) ''fghijklmnopqrstuvwxy''"
proof -
  have a: "length (chatHistory fullHistory) = MAX_HISTORY_LINES"
    by (simp add: fullHistory_def MAX_HISTORY_LINES_def)
  have b: "length lines25 = MAX_HISTORY_LINES + 5"
    by (simp add: lines25_def MAX_HISTORY_LINES_def)
  from history_bound [of lines25 "{}" Map.empty "[]" fullHistory "''u''"] a b
  have "chatHistory (addMessageToHistory ''u'' fullHistory)
          = tl (chatHistory fullHistory) @ [ensureNewline ''u'']"
    and "chatHistory (fold addMessageToHistory lines25 (initial {} Map.empty []))
          = map ensureNewline (drop 5 lines25)"
    by simp_all
  then show ?thesis
    using a b by (simp add: fullHistory_def lines25_def ensureNewline_def HasSuffix_def)
qed

subsection \<open>C5: Global messages\<close>

text \<open>
  C5 as stated fails on the empty line: \<open>alice\<close> sending only the terminator has
  \<^verbatim>\<open>alice: \<close> sent to both Active sessions, logged and stored.
\<close>

theorem empty_line_counterexample:
  "sent (handleMessage (\<lambda>i. [1, 2, 3]) 1 ''alice'' [NL] room) 1 = [''alice: '' @ [NL]]
   \<and> sent (handleMessage (\<lambda>i. [1, 2, 3]) 1 ''alice'' [NL] room) 2 = [''alice: '' @ [NL]]
   \<and> chatLog (handleMessage (\<lambda>i. [1, 2, 3]) 1 ''alice'' [NL] room) = [''[t] alice: '' @ [NL]]"
  by (simp add: room_def message_defs run_defs)

text \<open>
  C5, amended. Every inbound line that, trimmed, begins neither with \<^verbatim>\<open>PRIVMSG \<close> nor
  with \<^verbatim>\<open>GROUPMSG \<close> is a global message, the empty line included: with \<open>body\<close> the
  bytes before the terminator, the line \<^verbatim>\<open><sender>: <body>\<close> is sent to every Active
  session, the sender among them, and to no session that is not Active; exactly one entry is
  appended to the log and one to the history.
\<close>

theorem global_broadcast:
  assumes "rangeOrder (ord 0) s"
    and "\<not> HasPrefix (TrimSpace (body @ [NL])) ''PRIVMSG ''"
    and "\<not> HasPrefix (TrimSpace (body @ [NL])) ''GROUPMSG ''"
    and "NL \<notin> set body"
  shows "(\<forall>e. sent (handleMessage ord c u (body @ [NL]) s) e
            = (if isActive s e then sent s e @ [u @ '': '' @ body @ [NL]] else sent s e))
       \<and> chatLog (handleMessage ord c u (body @ [NL]) s)
            = chatLog s @ [''['' @ clock s @ ''] '' @ u @ '': '' @ body @ [NL]]
       \<and> chatHistory (handleMessage ord c u (body @ [NL]) s)
            = keepLast (chatHistory s @ [u @ '': '' @ body @ [NL]])
       \<and> clients (handleMessage ord c u (body @ [NL]) s) = clients s"
  using assms by (rule handleMessage_global_effect)

text \<open>The instance of the amended C5 on the registry \<open>room\<close>, for the line \<open>hi\<close>.\<close>

theorem global_broadcast_witness:
  "rangeOrder [1, 2, 3] room
   \<and> \<not> HasPrefix (TrimSpace (''hi'' @ [NL])) ''PRIVMSG ''
   \<and> \<not> HasPrefix (TrimSpace (''hi'' @ [NL])) ''GROUPMSG ''
   \<and> NL \<notin> set ''hi''
   \<and> sent (handleMessage (\<lambda>i. [1, 2, 3]) 1 ''alice'' (''hi'' @ [NL]) room) 1 = [''alice: hi'' @ [NL]]
   \<and> sent (handleMessage (\<lambda>i. [1, 2, 3]) 1 ''alice'' (''hi'' @ [NL]) room) 2 = [''alice: hi'' @ [NL]]
   \<and> sent (handleMessage (\<lambda>i. [1, 2, 3]) 1 ''alice'' (''hi'' @ [NL]) room) 3 = []
   \<and> chatLog (handleMessage (\<lambda>i. [1, 2, 3]) 1 ''alice'' (''hi'' @ [NL]) room)
       = [''[t] alice: hi'' @ [NL]]"
proof -
  have r: "rangeOrder [1, 2, 3] room"
    by (auto simp: rangeOrder_def room_def)
  have p: "\<not> HasPrefix (TrimSpace (''hi'' @ [NL])) ''PRIVMSG ''"
    and g: "\<not> HasPrefix (TrimSpace (''hi'' @ [NL])) ''GROUPMSG ''"
    and n: "NL \<notin> set ''hi''"
    by (simp_all add: HasPrefix_def trim_defs)
  have a: "isActive room 1" "isActive room 2" "\<not> isActive room 3"
    by (simp_all add: isActive_def room_def)
  note t = global_broadcast [of "\<lambda>i. [1, 2, 3]" room "''hi''" 1 "''alice''", OF r p g n]
  have s1: "sent (handleMessage (\<lambda>i. [1, 2, 3]) 1 ''alice'' (''hi'' @ [NL]) room) 1
      = sent room 1 @ [''alice'' @ '': '' @ ''hi'' @ [NL]]"
    using t a(1) by simp
  have s2: "sent (handleMessage (\<lambda>i. [1, 2, 3]) 1 ''alice'' (''hi'' @ [NL]) room) 2
      = sent room 2 @ [''alice'' @ '': '' @ ''hi'' @ [NL]]"
    using t a(2) by simp
  have s3: "sent (handleMessage (\<lambda>i. [1, 2, 3]) 1 ''alice'' (''hi'' @ [NL]) room) 3 = sent room 3"
    using t a(3) by simp
  have l: "chatLog (handleMessage (\<lambda>i. [1, 2, 3]) 1 ''alice'' (''hi'' @ [NL]) room)
      = chatLog room @ [''['' @ clock room @ ''] '' @ ''alice'' @ '': '' @ ''hi'' @ [NL]]"
    using t by simp
  have "sent (handleMessage (\<lambda>i. [1, 2, 3]) 1 ''alice'' (''hi'' @ [NL]) room) 1 = [''alice: hi'' @ [NL]]"
    "sent (handleMessage (\<lambda>i. [1, 2, 3]) 1 ''alice'' (''hi'' @ [NL]) room) 2 = [''alice: hi'' @ [NL]]"
    "sent (handleMessage (\<lambda>i. [1, 2, 3]) 1 ''alice'' (''hi'' @ [NL]) room) 3 = []"
    "chatLog (handleMessage (\<lambda>i. [1, 2, 3]) 1 ''alice'' (''hi'' @ [NL]) room)
       = [''[t] alice: hi'' @ [NL]]"
    unfolding s1 s2 s3 l by (simp_all add: room_def)
  then show ?thesis
    by (intro conjI r p g n)
qed

subsection \<open>C6: Direct messages\<close>

text \<open>
  C6. For every line that, trimmed, is \<^verbatim>\<open>PRIVMSG <recipient> <text>\<close> with a non-empty
  recipient without spaces and a non-empty text: when no Active session has the username
  \<^verbatim>\<open><recipient>\<close>, the sender alone is sent
  \<^verbatim>\<open>System: User '<recipient>' not found or is offline.\<close> and the log and the history
  stay as they are; otherwise an Active session with that username is sent
  \<^verbatim>\<open>(DM from <sender>): <text>\<close>, the sender is sent \<^verbatim>\<open>(DM to <recipient>): <text>\<close>,
  no other session is sent anything, and the one entry
  \<^verbatim>\<open>DM from <sender> to <recipient>: <text>\<close> is appended to the log.
\<close>

theorem direct_message:
  assumes "rangeOrder (ord 0) s"
    and "TrimSpace message = ''PRIVMSG '' @ r @ '' '' @ t"
    and "r \<noteq> []" and "CHR '' '' \<notin> set r" and "t \<noteq> []"
  shows "((\<forall>e. \<not> activeAs s e r) \<longrightarrow>
            sent (handleMessage ord c u message s)
              = (sent s)(c := sent s c @ [userNotFound r @ [NL]])
          \<and> chatLog (handleMessage ord c u message s) = chatLog s
          \<and> chatHistory (handleMessage ord c u message s) = chatHistory s)
       \<and> ((\<exists>e. activeAs s e r) \<longrightarrow>
            (\<exists>rc. activeAs s rc r
              \<and> (\<forall>e. sent (handleMessage ord c u message s) e
                    = sent s e @ (if e = rc then [dmToRecipient u t @ [NL]] else [])
                        @ (if e = c then [dmToSender r t @ [NL]] else []))
              \<and> chatLog (handleMessage ord c u message s)
                    = chatLog s @ [''['' @ clock s @ ''] '' @ dmLog u r t @ [NL]]
              \<and> chatHistory (handleMessage ord c u message s)
                    = keepLast (chatHistory s @ [dmLog u r t @ [NL]])))"
proof -
  note h = handleMessage_dm [OF assms(2-5), of ord c u s]
  have "TrimSpace message = (''PRIVMSG '' @ r @ '' '') @ t" using assms(2) by simp
  from TrimSpace_text [OF this assms(5)] have l: "last t \<noteq> NL" .
  note nl = ensureNewline_text [OF assms(5) l]
  show ?thesis
  proof (cases "findActive (ord 0) r (clients s)")
    case None
    then have "\<forall>e. \<not> activeAs s e r"
      using findActive_activeAs(1) [OF assms(1)] by simp
    then show ?thesis
      using None by (simp add: h)
  next
    case (Some rc)
    then have a: "activeAs s rc r"
      by (rule findActive_activeAs(2) [OF assms(1)])
    have "\<forall>e. sent (handleMessage ord c u message s) e
                    = sent s e @ (if e = rc then [dmToRecipient u t @ [NL]] else [])
                        @ (if e = c then [dmToSender r t @ [NL]] else [])"
      by (simp add: h Some nl)
    moreover have "chatLog (handleMessage ord c u message s)
                    = chatLog s @ [''['' @ clock s @ ''] '' @ dmLog u r t @ [NL]]"
      by (simp add: h Some nl)
    moreover have "chatHistory (handleMessage ord c u message s)
                    = keepLast (chatHistory s @ [dmLog u r t @ [NL]])"
      by (simp add: h Some nl chatHistory_add)
    ultimately show ?thesis
      using a by blast
  qed
qed

text \<open>
  The instance of C6 on the registry \<open>room\<close>: \<open>alice\<close> writes to \<open>bob\<close>, who is
  Active, and to \<open>carol\<close>, who is not.
\<close>

theorem direct_message_witness:
  "rangeOrder [1, 2, 3] room
   \<and> TrimSpace (''PRIVMSG bob hello'' @ [NL]) = ''PRIVMSG '' @ ''bob'' @ '' '' @ ''hello''
   \<and> sent (handleMessage (\<lambda>i. [1, 2, 3]) 1 ''alice'' (''PRIVMSG bob hello'' @ [NL]) room) 1
       = [''(DM to bob): hello'' @ [NL]]
   \<and> sent (handleMessage (\<lambda>i. [1, 2, 3]) 1 ''alice'' (''PRIVMSG bob hello'' @ [NL]) room) 2
       = [''(DM from alice): hello'' @ [NL]]
   \<and> sent (handleMessage (\<lambda>i. [1, 2, 3]) 1 ''alice'' (''PRIVMSG bob hello'' @ [NL]) room) 3 = []
   \<and> chatLog (handleMessage (\<lambda>i. [1, 2, 3]) 1 ''alice'' (''PRIVMSG bob hello'' @ [NL]) room)
       = [''[t] DM from alice to bob: hello'' @ [NL]]
   \<and> TrimSpace (''PRIVMSG carol hello'' @ [NL]) = ''PRIVMSG '' @ ''carol'' @ '' '' @ ''hello''
   \<and> sent (handleMessage (\<lambda>i. [1, 2, 3]) 1 ''alice'' (''PRIVMSG carol hello'' @ [NL]) room)
       = (\<lambda>c. [])(1 := [''System: User '' @ [CHR 0x27] @ ''carol'' @ [CHR 0x27]
                           @ '' not found or is offline.'' @ [NL]])
   \<and> chatLog (handleMessage (\<lambda>i. [1, 2, 3]) 1 ''alice'' (''PRIVMSG carol hello'' @ [NL]) room) = []"
proof -
  let ?s = "handleMessage (\<lambda>i. [1, 2, 3]) 1 ''alice'' (''PRIVMSG bob hello'' @ [NL]) room"
  let ?n = "handleMessage (\<lambda>i. [1, 2, 3]) 1 ''alice'' (''PRIVMSG carol hello'' @ [NL]) room"
  have r: "rangeOrder [1, 2, 3] room"
    by (auto simp: rangeOrder_def room_def)
  have tb: "TrimSpace (''PRIVMSG bob hello'' @ [NL]) = ''PRIVMSG '' @ ''bob'' @ '' '' @ ''hello''"
    and tc: "TrimSpace (''PRIVMSG carol hello'' @ [NL]) = ''PRIVMSG '' @ ''carol'' @ '' '' @ ''hello''"
    by (simp_all add: trim_defs)
  have bob: "activeAs room e ''bob'' \<longleftrightarrow> e = 2" and carol: "\<not> activeAs room e ''carol''" for e
    by (auto simp: activeAs_def room_def split: if_splits)
  have ex: "\<exists>e. activeAs room e ''bob''" using bob by blast
  from direct_message [of "\<lambda>i. [1, 2, 3]" room _ "''bob''" "''hello''" 1 "''alice''", OF r tb] ex
  obtain rc where rc: "activeAs room rc ''bob''"
    and s: "\<And>e. sent ?s e = sent room e @ (if e = rc then [dmToRecipient ''alice'' ''hello'' @ [NL]] else [])
                        @ (if e = 1 then [dmToSender ''bob'' ''hello'' @ [NL]] else [])"
    and l: "chatLog ?s = chatLog room @ [''['' @ clock room @ ''] '' @ dmLog ''alice'' ''bob'' ''hello'' @ [NL]]"
    by auto
  from rc bob have rc2: "rc = 2" by simp
  have b: "sent ?s 1 = [''(DM to bob): hello'' @ [NL]]"
    "sent ?s 2 = [''(DM from alice): hello'' @ [NL]]"
    "sent ?s 3 = []"
    "chatLog ?s = [''[t] DM from alice to bob: hello'' @ [NL]]"
    unfolding s l rc2 by (simp_all add: room_def dmToRecipient_def dmToSender_def dmLog_def)
  from direct_message [of "\<lambda>i. [1, 2, 3]" room _ "''carol''" "''hello''" 1 "''alice''", OF r tc] carol
  have "sent ?n = (sent room)(1 := sent room 1 @ [userNotFound ''carol'' @ [NL]])"
    and nl: "chatLog ?n = chatLog room"
    by auto
  then have n: "sent ?n = (\<lambda>c. [])(1 := [''System: User '' @ [CHR 0x27] @ ''carol'' @ [CHR 0x27]
                           @ '' not found or is offline.'' @ [NL]])"
    "chatLog ?n = []"
    by (simp_all add: room_def userNotFound_def)
  show ?thesis
    by (intro conjI r tb tc b n)
qed

subsection \<open>C7: Group messages\<close>

text \<open>
  C7 as stated fails: in the registry \<open>lobby\<close>, where only \<open>alice\<close> is Active, she is sent
  the member delivery line before the confirmation line.
\<close>

theorem group_self_delivery_counterexample:
  "sent (handleMessage (\<lambda>i. [1, 2]) 1 ''alice'' (''GROUPMSG friends hey'' @ [NL]) lobby) 1
     = [''(#friends from alice): hey'' @ [NL], ''(To #friends): hey'' @ [NL]]"
  by (simp add: lobby_def message_defs run_defs)

text \<open>
  C7, amended. For the group \<open>friends\<close> with the member list \<open>[alice, bob]\<close> where only
  \<open>alice\<close> has an Active session, \<open>alice\<close> sending \<^verbatim>\<open>GROUPMSG friends hey\<close> is
  sent two lines: the member delivery \<^verbatim>\<open>(#friends from alice): hey\<close>, because she is a
  member of the group, and then the confirmation \<^verbatim>\<open>(To #friends): hey\<close>. The offline member
  \<open>bob\<close> is skipped, no other connection is sent anything, and exactly one
  \<^verbatim>\<open>GROUPMSG\<close> entry is appended to the log.
\<close>

theorem group_message_friends:
  assumes "\<And>i. rangeOrder (ord i) s"
    and "groups s ''friends'' = Some \<lparr>name = ''friends'', members = [''alice'', ''bob'']\<rparr>"
    and "activeAs s a ''alice''"
    and "\<And>e. e \<noteq> a \<Longrightarrow> \<not> isActive s e"
  shows "sent (handleMessage ord a ''alice'' (''GROUPMSG friends hey'' @ [NL]) s)
           = (sent s)(a := sent s a @ [''(#friends from alice): hey'' @ [NL],
                                       ''(To #friends): hey'' @ [NL]])
       \<and> chatLog (handleMessage ord a ''alice'' (''GROUPMSG friends hey'' @ [NL]) s)
           = chatLog s @ [''['' @ clock s @ ''] GROUPMSG to #friends from alice: hey'' @ [NL]]
       \<and> chatHistory (handleMessage ord a ''alice'' (''GROUPMSG friends hey'' @ [NL]) s)
           = keepLast (chatHistory s @ [''GROUPMSG to #friends from alice: hey'' @ [NL]])"
proof -
  have t: "TrimSpace (''GROUPMSG friends hey'' @ [NL]) = ''GROUPMSG '' @ ''friends'' @ '' '' @ ''hey''"
    by (simp add: trim_defs)
  note h = handleMessage_gm [OF t, of ord a "''alice''" s, simplified]
  have only: "e = a \<and> v = ''alice''" if "activeAs s e v" for e v
  proof -
    from that have "isActive s e" by (auto simp: activeAs_def isActive_def split: option.splits)
    with assms(4) [of e] have "e = a" by blast
    with that assms(3) show ?thesis by (auto simp: activeAs_def split: option.splits)
  qed
  have alice: "findActive (ord 0) ''alice'' (clients s) = Some a"
  proof (cases "findActive (ord 0) ''alice'' (clients s)")
    case None
    then show ?thesis using findActive_activeAs(1) [OF assms(1)] assms(3) by blast
  next
    case (Some rc)
    from findActive_activeAs(2) [OF assms(1) this] only show ?thesis using Some by blast
  qed
  have bob: "findActive (ord (Suc 0)) ''bob'' (clients s) = None"
  proof (cases "findActive (ord (Suc 0)) ''bob'' (clients s)")
    case None
    then show ?thesis .
  next
    case (Some rc)
    from findActive_activeAs(2) [OF assms(1) this] only show ?thesis by fastforce
  qed
  show ?thesis
    by (simp add: h assms(2) alice bob chatHistory_add ensureNewline_def HasSuffix_def gmToSend_def
        confirmationToSender_def gmLog_def)
qed

text \<open>The instance of the amended C7 on the registry \<open>lobby\<close>.\<close>

theorem group_message_friends_witness:
  "rangeOrder [1, 2] lobby
   \<and> groups lobby ''friends'' = Some \<lparr>name = ''friends'', members = [''alice'', ''bob'']\<rparr>
   \<and> activeAs lobby 1 ''alice'' \<and> \<not> isActive lobby 2
   \<and> sent (handleMessage (\<lambda>i. [1, 2]) 1 ''alice'' (''GROUPMSG friends hey'' @ [NL]) lobby)
       = (\<lambda>c. [])(1 := [''(#friends from alice): hey'' @ [NL], ''(To #friends): hey'' @ [NL]])
   \<and> chatLog (handleMessage (\<lambda>i. [1, 2]) 1 ''alice'' (''GROUPMSG friends hey'' @ [NL]) lobby)
       = [''[t] GROUPMSG to #friends from alice: hey'' @ [NL]]"
proof -
  have r: "rangeOrder [1, 2] lobby"
    by (auto simp: rangeOrder_def lobby_def)
  have g: "groups lobby ''friends'' = Some \<lparr>name = ''friends'', members = [''alice'', ''bob'']\<rparr>"
    by (simp add: lobby_def)
  have a: "activeAs lobby 1 ''alice''" and n: "\<not> isActive lobby 2"
    by (simp_all add: activeAs_def isActive_def lobby_def)
  have o: "\<not> isActive lobby e" if "e \<noteq> 1" for e
    using that by (simp add: isActive_def lobby_def)
  from group_message_friends [of "\<lambda>i. [1, 2]" lobby 1, OF r g a o]
  have "sent (handleMessage (\<lambda>i. [1, 2]) 1 ''alice'' (''GROUPMSG friends hey'' @ [NL]) lobby)
       = (sent lobby)(1 := sent lobby 1 @ [''(#friends from alice): hey'' @ [NL], ''(To #friends): hey'' @ [NL]])"
    and "chatLog (handleMessage (\<lambda>i. [1, 2]) 1 ''alice'' (''GROUPMSG friends hey'' @ [NL]) lobby)
       = chatLog lobby @ [''['' @ clock lobby @ ''] GROUPMSG to #friends from alice: hey'' @ [NL]]"
    by simp_all
  then have "sent (handleMessage (\<lambda>i. [1, 2]) 1 ''alice'' (''GROUPMSG friends hey'' @ [NL]) lobby)
       = (\<lambda>c. [])(1 := [''(#friends from alice): hey'' @ [NL], ''(To #friends): hey'' @ [NL]])"
    "chatLog (handleMessage (\<lambda>i. [1, 2]) 1 ''alice'' (''GROUPMSG friends hey'' @ [NL]) lobby)
       = [''[t] GROUPMSG to #friends from alice: hey'' @ [NL]]"
    by (simp_all add: lobby_def)
  then show ?thesis
    by (intro conjI r g a n)
qed

subsection \<open>C8: Departure\<close>

text \<open>
  C8. When the deferred function runs for a session that is Active under the username
  \<open>u\<close>, the session is removed from the registry, the line
  \<^verbatim>\<open>System: <u> has left the chat.\<close> is sent to every remaining Active session, and the
  line is appended to the history buffer and to the log. When it runs for a session that is
  not Active, the entry is removed and nothing is sent, logged or stored.
\<close>

theorem cleanup_departure:
  assumes "rangeOrder order (s\<lparr>clients := (clients s)(c := None)\<rparr>)"
  shows "(activeAs s c u \<and> u \<noteq> [] \<longrightarrow>
            clients (cleanup order c s) = (clients s)(c := None)
          \<and> (\<forall>e. sent (cleanup order c s) e
                = (if e \<noteq> c \<and> isActive s e then sent s e @ [leftMsg u @ [NL]] else sent s e))
          \<and> chatHistory (cleanup order c s) = keepLast (chatHistory s @ [leftMsg u @ [NL]])
          \<and> chatLog (cleanup order c s) = chatLog s @ [''['' @ clock s @ ''] '' @ leftMsg u @ [NL]])
       \<and> (\<not> isActive s c \<longrightarrow>
            clients (cleanup order c s) = (clients s)(c := None)
          \<and> sent (cleanup order c s) = sent s
          \<and> chatHistory (cleanup order c s) = chatHistory s
          \<and> chatLog (cleanup order c s) = chatLog s)"
proof -
  let ?s' = "s\<lparr>clients := (clients s)(c := None)\<rparr>"
  have act: "isActive ?s' e \<longleftrightarrow> e \<noteq> c \<and> isActive s e" for e
    by (simp add: isActive_def)
  have gone: "cleanup order c s = depart order u ?s'" if "activeAs s c u" "u \<noteq> []"
    using that by (auto simp: cleanup_def unregister_eq activeAs_def split: option.splits)
  have quiet: "cleanup order c s = ?s' \<or> cleanup order c s = s \<and> clients s c = None"
    if "\<not> isActive s c"
    using that by (auto simp: cleanup_def unregister_eq isActive_def split: option.splits)
  have silent: "clients (cleanup order c s) = (clients s)(c := None)
          \<and> sent (cleanup order c s) = sent s
          \<and> chatHistory (cleanup order c s) = chatHistory s
          \<and> chatLog (cleanup order c s) = chatLog s" if "\<not> isActive s c"
    using quiet [OF that] by auto
  show ?thesis
    using silent by (auto simp: gone sent_depart [OF assms] act)
qed

text \<open>
  The instance of C8 on the registry \<open>room\<close>: \<open>alice\<close> leaves and \<open>bob\<close> is told;
  the connection that never logged in leaves silently.
\<close>

theorem cleanup_departure_witness:
  "rangeOrder [2, 3] (room\<lparr>clients := (clients room)(1 := None)\<rparr>)
   \<and> activeAs room 1 ''alice''
   \<and> dom (clients (cleanup [2, 3] 1 room)) = {2, 3}
   \<and> sent (cleanup [2, 3] 1 room) 1 = []
   \<and> sent (cleanup [2, 3] 1 room) 2 = [''System: alice has left the chat.'' @ [NL]]
   \<and> sent (cleanup [2, 3] 1 room) 3 = []
   \<and> chatHistory (cleanup [2, 3] 1 room) = [''System: alice has left the chat.'' @ [NL]]
   \<and> chatLog (cleanup [2, 3] 1 room) = [''[t] System: alice has left the chat.'' @ [NL]]
   \<and> rangeOrder [1, 2] (room\<lparr>clients := (clients room)(3 := None)\<rparr>)
   \<and> \<not> isActive room 3
   \<and> dom (clients (cleanup [1, 2] 3 room)) = {1, 2}
   \<and> sent (cleanup [1, 2] 3 room) = sent room
   \<and> chatHistory (cleanup [1, 2] 3 room) = []
   \<and> chatLog (cleanup [1, 2] 3 room) = []"
proof -
  have r1: "rangeOrder [2, 3] (room\<lparr>clients := (clients room)(1 := None)\<rparr>)"
    by (auto simp: rangeOrder_def room_def)
  have a1: "activeAs room 1 ''alice'' \<and> ''alice'' \<noteq> []"
    by (simp add: activeAs_def room_def)
  have r3: "rangeOrder [1, 2] (room\<lparr>clients := (clients room)(3 := None)\<rparr>)"
    by (auto simp: rangeOrder_def room_def)
  have a3: "\<not> isActive room 3"
    by (simp add: isActive_def room_def)
  have act: "isActive room 2" "\<not> isActive room 1 \<or> True"
    by (simp_all add: isActive_def room_def)
  from cleanup_departure [OF r1, of "''alice''", THEN conjunct1] a1
  have gone: "clients (cleanup [2, 3] 1 room) = (clients room)(1 := None)"
    "\<And>e. sent (cleanup [2, 3] 1 room) e
       = (if e \<noteq> 1 \<and> isActive room e then sent room e @ [leftMsg ''alice'' @ [NL]]
          else sent room e)"
    "chatHistory (cleanup [2, 3] 1 room) = keepLast (chatHistory room @ [leftMsg ''alice'' @ [NL]])"
    "chatLog (cleanup [2, 3] 1 room)
       = chatLog room @ [''['' @ clock room @ ''] '' @ leftMsg ''alice'' @ [NL]]"
    by simp_all
  from cleanup_departure [OF r3, of "''alice''", THEN conjunct2] a3
  have quiet: "clients (cleanup [1, 2] 3 room) = (clients room)(3 := None)"
    "sent (cleanup [1, 2] 3 room) = sent room"
    "chatHistory (cleanup [1, 2] 3 room) = chatHistory room"
    "chatLog (cleanup [1, 2] 3 room) = chatLog room"
    by simp_all
  have d: "dom (clients (cleanup [2, 3] 1 room)) = {2, 3}"
    "dom (clients (cleanup [1, 2] 3 room)) = {1, 2}"
    unfolding gone(1) quiet(1) by (auto simp: room_def)
  have "sent (cleanup [2, 3] 1 room) 2 = sent room 2 @ [leftMsg ''alice'' @ [NL]]"
    "sent (cleanup [2, 3] 1 room) 1 = sent room 1" "sent (cleanup [2, 3] 1 room) 3 = sent room 3"
    using act(1) a3 gone(2) [of 2] gone(2) [of 1] gone(2) [of 3] by simp_all
  then have s: "sent (cleanup [2, 3] 1 room) 2 = [''System: alice has left the chat.'' @ [NL]]"
    "sent (cleanup [2, 3] 1 room) 1 = []" "sent (cleanup [2, 3] 1 room) 3 = []"
    by (simp_all add: room_def leftMsg_def)
  have h: "chatHistory (cleanup [2, 3] 1 room) = [''System: alice has left the chat.'' @ [NL]]"
    "chatLog (cleanup [2, 3] 1 room) = [''[t] System: alice has left the chat.'' @ [NL]]"
    unfolding gone(3,4)
    by (simp_all add: room_def leftMsg_def keepLast_def MAX_HISTORY_LINES_def)
  have q: "chatHistory (cleanup [1, 2] 3 room) = []" "chatLog (cleanup [1, 2] 3 room) = []"
    unfolding quiet by (simp_all add: room_def)
  show ?thesis
    by (intro conjI r1 a1 [THEN conjunct1] d s h q r3 a3 quiet(2))
qed

subsection \<open>C9: What the history stores\<close>

text \<open>
  C9 as stated fails for a direct message: the history receives the line written to the log,
  which is neither of the two delivered strings.
\<close>

theorem dm_history_counterexample:
  "chatHistory (handleMessage (\<lambda>i. [1, 2, 3]) 1 ''alice'' (''PRIVMSG bob hello'' @ [NL]) room)
     = [''DM from alice to bob: hello'' @ [NL]]
   \<and> sent (handleMessage (\<lambda>i. [1, 2, 3]) 1 ''alice'' (''PRIVMSG bob hello'' @ [NL]) room) 1
     = [''(DM to bob): hello'' @ [NL]]
   \<and> sent (handleMessage (\<lambda>i. [1, 2, 3]) 1 ''alice'' (''PRIVMSG bob hello'' @ [NL]) room) 2
     = [''(DM from alice): hello'' @ [NL]]"
  by (simp add: room_def message_defs run_defs)

text \<open>
  C9, amended. For every line processed by the router, with \<open>parts\<close> the pieces of the
  trimmed line: an error reply (malformed \<^verbatim>\<open>PRIVMSG\<close> or \<^verbatim>\<open>GROUPMSG\<close>, no Active
  recipient, unknown group) is written to the sender, nothing is written to any other
  connection, and the history buffer and the log stay unchanged. Otherwise exactly one string
  is appended to the history buffer: for a global message the delivered string
  \<^verbatim>\<open><sender>: <text>\<close>, newline-terminated once; for a direct message the log line
  \<^verbatim>\<open>DM from <sender> to <recipient>: <text>\<close> and for a group message the log line
  \<^verbatim>\<open>GROUPMSG to #<group> from <sender>: <text>\<close>, not the delivered strings.
\<close>

theorem history_entries:
  assumes "cmd = TrimSpace message" and "parts = SplitN cmd (CHR '' '') 3"
    and "s' = handleMessage ord c u message s"
  shows "(HasPrefix cmd ''PRIVMSG '' \<and> malformed parts \<longrightarrow>
            chatHistory s' = chatHistory s \<and> chatLog s' = chatLog s
            \<and> sent s' = (sent s)(c := sent s c @ [invalidDM @ [NL]]))
       \<and> (HasPrefix cmd ''PRIVMSG '' \<and> \<not> malformed parts
          \<and> findActive (ord 0) (parts ! 1) (clients s) = None \<longrightarrow>
            chatHistory s' = chatHistory s \<and> chatLog s' = chatLog s
            \<and> sent s' = (sent s)(c := sent s c @ [userNotFound (parts ! 1) @ [NL]]))
       \<and> (\<not> HasPrefix cmd ''PRIVMSG '' \<and> HasPrefix cmd ''GROUPMSG '' \<and> malformed parts \<longrightarrow>
            chatHistory s' = chatHistory s \<and> chatLog s' = chatLog s
            \<and> sent s' = (sent s)(c := sent s c @ [invalidGM @ [NL]]))
       \<and> (\<not> HasPrefix cmd ''PRIVMSG '' \<and> HasPrefix cmd ''GROUPMSG '' \<and> \<not> malformed parts
          \<and> groups s (parts ! 1) = None \<longrightarrow>
            chatHistory s' = chatHistory s \<and> chatLog s' = chatLog s
            \<and> sent s' = (sent s)(c := sent s c @ [groupNotFound (parts ! 1) @ [NL]]))
       \<and> (HasPrefix cmd ''PRIVMSG '' \<and> \<not> malformed parts
          \<and> findActive (ord 0) (parts ! 1) (clients s) = Some rc \<longrightarrow>
            chatHistory s'
              = keepLast (chatHistory s @ [ensureNewline (dmLog u (parts ! 1) (parts ! 2))])
            \<and> (\<forall>e. sent s' e
                  = sent s e
                    @ (if e = rc then [ensureNewline (dmToRecipient u (parts ! 2))] else [])
                    @ (if e = c then [ensureNewline (dmToSender (parts ! 1) (parts ! 2))] else [])))
       \<and> (\<not> HasPrefix cmd ''PRIVMSG '' \<and> HasPrefix cmd ''GROUPMSG '' \<and> \<not> malformed parts
          \<and> groups s (parts ! 1) = Some grp \<longrightarrow>
            chatHistory s'
              = keepLast (chatHistory s @ [ensureNewline (gmLog (name grp) u (parts ! 2))])
            \<and> sent s' c
              = sent (deliverGroup ord 0 (members grp) (gmToSend (name grp) u (parts ! 2)) s) c
                @ [ensureNewline (confirmationToSender (name grp) (parts ! 2))])
       \<and> (\<not> HasPrefix cmd ''PRIVMSG '' \<and> \<not> HasPrefix cmd ''GROUPMSG '' \<and> isLine message
          \<and> rangeOrder (ord 0) s \<longrightarrow>
            chatHistory s' = keepLast (chatHistory s @ [u @ '': '' @ message])
            \<and> (\<forall>e. sent s' e
                  = (if isActive s e then sent s e @ [u @ '': '' @ message] else sent s e)))"
proof -
  have dmBad: "chatHistory s' = chatHistory s \<and> chatLog s' = chatLog s
            \<and> sent s' = (sent s)(c := sent s c @ [invalidDM @ [NL]])"
    if "HasPrefix cmd ''PRIVMSG ''" "malformed parts"
    using that assms by (simp add: handleMessage_def Let_def)
  have dmNone: "chatHistory s' = chatHistory s \<and> chatLog s' = chatLog s
            \<and> sent s' = (sent s)(c := sent s c @ [userNotFound (parts ! 1) @ [NL]])"
    if "HasPrefix cmd ''PRIVMSG ''" "\<not> malformed parts"
      "findActive (ord 0) (parts ! 1) (clients s) = None"
    using that assms by (simp add: handleMessage_def Let_def)
  have gmBad: "chatHistory s' = chatHistory s \<and> chatLog s' = chatLog s
            \<and> sent s' = (sent s)(c := sent s c @ [invalidGM @ [NL]])"
    if "\<not> HasPrefix cmd ''PRIVMSG ''" "HasPrefix cmd ''GROUPMSG ''" "malformed parts"
    using that assms by (simp add: handleMessage_def Let_def)
  have gmNone: "chatHistory s' = chatHistory s \<and> chatLog s' = chatLog s
            \<and> sent s' = (sent s)(c := sent s c @ [groupNotFound (parts ! 1) @ [NL]])"
    if "\<not> HasPrefix cmd ''PRIVMSG ''" "HasPrefix cmd ''GROUPMSG ''" "\<not> malformed parts"
      "groups s (parts ! 1) = None"
    using that assms by (simp add: handleMessage_def Let_def)
  have dm: "chatHistory s'
              = keepLast (chatHistory s @ [ensureNewline (dmLog u (parts ! 1) (parts ! 2))])
            \<and> (\<forall>e. sent s' e
                  = sent s e
                    @ (if e = rc then [ensureNewline (dmToRecipient u (parts ! 2))] else [])
                    @ (if e = c then [ensureNewline (dmToSender (parts ! 1) (parts ! 2))] else []))"
    if "HasPrefix cmd ''PRIVMSG ''" "\<not> malformed parts"
      "findActive (ord 0) (parts ! 1) (clients s) = Some rc"
    using that assms by (simp add: handleMessage_def Let_def chatHistory_add)
  have gm: "chatHistory s'
              = keepLast (chatHistory s @ [ensureNewline (gmLog (name grp) u (parts ! 2))])
            \<and> sent s' c
              = sent (deliverGroup ord 0 (members grp) (gmToSend (name grp) u (parts ! 2)) s) c
                @ [ensureNewline (confirmationToSender (name grp) (parts ! 2))]"
    if "\<not> HasPrefix cmd ''PRIVMSG ''" "HasPrefix cmd ''GROUPMSG ''" "\<not> malformed parts"
      "groups s (parts ! 1) = Some grp"
    using that assms by (simp add: handleMessage_def Let_def chatHistory_add)
  have global: "chatHistory s' = keepLast (chatHistory s @ [u @ '': '' @ message])
            \<and> (\<forall>e. sent s' e
                  = (if isActive s e then sent s e @ [u @ '': '' @ message] else sent s e))"
    if "\<not> HasPrefix cmd ''PRIVMSG ''" "\<not> HasPrefix cmd ''GROUPMSG ''" "isLine message"
      "rangeOrder (ord 0) s"
  proof -
    from isLine_snoc [OF that(3)] obtain body where b: "message = body @ [NL]" "NL \<notin> set body"
      by blast
    from handleMessage_global_effect [of ord s body c u] that b assms
    show ?thesis by simp
  qed
  show ?thesis
    using dmBad dmNone gmBad gmNone dm gm global by blast
qed

text \<open>
  The instance of the amended C9 on the registry \<open>room\<close>: the four error replies reach
  the sender alone and change neither the history nor the log; a direct, a group and a
  global message each append one line to the history.
\<close>

theorem history_entries_witness:
  "chatHistory (handleMessage (\<lambda>i. [1, 2, 3]) 1 ''alice'' (''PRIVMSG bob'' @ [NL]) room) = []
   \<and> chatLog (handleMessage (\<lambda>i. [1, 2, 3]) 1 ''alice'' (''PRIVMSG bob'' @ [NL]) room) = []
   \<and> sent (handleMessage (\<lambda>i. [1, 2, 3]) 1 ''alice'' (''PRIVMSG bob'' @ [NL]) room)
       = (\<lambda>c. [])(1 := [''System: Invalid DM format. Use: PRIVMSG <user> <message>'' @ [NL]])
   \<and> chatHistory (handleMessage (\<lambda>i. [1, 2, 3]) 1 ''alice'' (''PRIVMSG carol hi'' @ [NL]) room) = []
   \<and> sent (handleMessage (\<lambda>i. [1, 2, 3]) 1 ''alice'' (''PRIVMSG carol hi'' @ [NL]) room)
       = (\<lambda>c. [])(1 := [''System: User '' @ [CHR 0x27] @ ''carol'' @ [CHR 0x27]
                           @ '' not found or is offline.'' @ [NL]])
   \<and> chatHistory (handleMessage (\<lambda>i. [1, 2, 3]) 1 ''alice'' (''GROUPMSG friends'' @ [NL]) room) = []
   \<and> sent (handleMessage (\<lambda>i. [1, 2, 3]) 1 ''alice'' (''GROUPMSG friends'' @ [NL]) room)
       = (\<lambda>c. [])(1 := [''System: Invalid GM format. Use: GROUPMSG <group> <message>'' @ [NL]])
   \<and> chatHistory (handleMessage (\<lambda>i. [1, 2, 3]) 1 ''alice'' (''GROUPMSG nobody hi'' @ [NL]) room) = []
   \<and> chatLog (handleMessage (\<lambda>i. [1, 2, 3]) 1 ''alice'' (''GROUPMSG nobody hi'' @ [NL]) room) = []
   \<and> sent (handleMessage (\<lambda>i. [1, 2, 3]) 1 ''alice'' (''GROUPMSG nobody hi'' @ [NL]) room)
       = (\<lambda>c. [])(1 := [''System: Group '' @ [CHR 0x27] @ ''#nobody'' @ [CHR 0x27]
                           @ '' not found.'' @ [NL]])
   \<and> chatHistory (handleMessage (\<lambda>i. [1, 2, 3]) 1 ''alice'' (''PRIVMSG bob hello'' @ [NL]) room)
       = [''DM from alice to bob: hello'' @ [NL]]
   \<and> chatHistory (handleMessage (\<lambda>i. [1, 2, 3]) 1 ''alice'' (''GROUPMSG friends hey'' @ [NL]) room)
       = [''GROUPMSG to #friends from alice: hey'' @ [NL]]
   \<and> chatHistory (handleMessage (\<lambda>i. [1, 2, 3]) 1 ''alice'' (''hi'' @ [NL]) room)
       = [''alice: hi'' @ [NL]]
   \<and> sent (handleMessage (\<lambda>i. [1, 2, 3]) 1 ''alice'' (''hi'' @ [NL]) room) 2
       = [''alice: hi'' @ [NL]]"
proof -
  let ?h = "\<lambda>m. handleMessage (\<lambda>i. [1, 2, 3]) 1 ''alice'' (m @ [NL]) room"
  note ev = trim_defs malformed_def numeral_3_eq_3 room_def
  have e1: "chatHistory (?h ''PRIVMSG bob'') = chatHistory room
      \<and> chatLog (?h ''PRIVMSG bob'') = chatLog room
      \<and> sent (?h ''PRIVMSG bob'') = (sent room)(1 := sent room 1 @ [invalidDM @ [NL]])"
    by (rule history_entries [OF refl refl refl, THEN conjunct1, THEN mp]) (simp add: ev)
  have e2: "chatHistory (?h ''PRIVMSG carol hi'') = chatHistory room
      \<and> chatLog (?h ''PRIVMSG carol hi'') = chatLog room
      \<and> sent (?h ''PRIVMSG carol hi'') = (sent room)(1 := sent room 1 @ [userNotFound ''carol'' @ [NL]])"
    using history_entries [where ord = "\<lambda>i. [1, 2, 3]" and c = 1 and u = "''alice''"
        and message = "''PRIVMSG carol hi'' @ [NL]" and s = room, OF refl refl refl,
        THEN conjunct2, THEN conjunct1]
    by (simp add: ev)
  have e3: "chatHistory (?h ''GROUPMSG friends'') = chatHistory room
      \<and> chatLog (?h ''GROUPMSG friends'') = chatLog room
      \<and> sent (?h ''GROUPMSG friends'') = (sent room)(1 := sent room 1 @ [invalidGM @ [NL]])"
    by (rule history_entries [OF refl refl refl, THEN conjunct2, THEN conjunct2, THEN conjunct1,
          THEN mp])
      (simp add: ev)
  have e4: "chatHistory (?h ''GROUPMSG nobody hi'') = chatHistory room
      \<and> chatLog (?h ''GROUPMSG nobody hi'') = chatLog room
      \<and> sent (?h ''GROUPMSG nobody hi'')
          = (sent room)(1 := sent room 1 @ [groupNotFound ''nobody'' @ [NL]])"
    using history_entries [where ord = "\<lambda>i. [1, 2, 3]" and c = 1 and u = "''alice''"
        and message = "''GROUPMSG nobody hi'' @ [NL]" and s = room, OF refl refl refl,
        THEN conjunct2, THEN conjunct2, THEN conjunct2, THEN conjunct1]
    by (simp add: ev)
  have e5: "chatHistory (?h ''PRIVMSG bob hello'')
      = keepLast (chatHistory room @ [ensureNewline (dmLog ''alice'' ''bob'' ''hello'')])"
    using history_entries [where rc = 2 and ord = "\<lambda>i. [1, 2, 3]" and c = 1 and u = "''alice''"
        and message = "''PRIVMSG bob hello'' @ [NL]" and s = room, OF refl refl refl,
        THEN conjunct2, THEN conjunct2, THEN conjunct2, THEN conjunct2, THEN conjunct1]
    by (simp add: ev)
  have e6: "chatHistory (?h ''GROUPMSG friends hey'')
      = keepLast (chatHistory room @ [ensureNewline (gmLog ''friends'' ''alice'' ''hey'')])"
    using history_entries [where grp = "\<lparr>name = ''friends'', members = [''alice'', ''bob'']\<rparr>"
        and ord = "\<lambda>i. [1, 2, 3]" and c = 1 and u = "''alice''"
        and message = "''GROUPMSG friends hey'' @ [NL]" and s = room, OF refl refl refl,
        THEN conjunct2, THEN conjunct2, THEN conjunct2, THEN conjunct2, THEN conjunct2,
        THEN conjunct1]
    by (simp add: ev)
  have a: "isActive room 2" by (simp add: isActive_def room_def)
  have e7: "chatHistory (?h ''hi'') = keepLast (chatHistory room @ [''alice'' @ '': '' @ ''hi'' @ [NL]])
      \<and> sent (?h ''hi'') 2 = sent room 2 @ [''alice'' @ '': '' @ ''hi'' @ [NL]]"
    using history_entries [where ord = "\<lambda>i. [1, 2, 3]" and c = 1 and u = "''alice''"
        and message = "''hi'' @ [NL]" and s = room, OF refl refl refl,
        THEN conjunct2, THEN conjunct2, THEN conjunct2, THEN conjunct2, THEN conjunct2,
        THEN conjunct2] a
    by (auto simp: trim_defs isLine_def rangeOrder_def room_def)
  have "chatHistory (?h ''PRIVMSG bob'') = []" "chatLog (?h ''PRIVMSG bob'') = []"
    "sent (?h ''PRIVMSG bob'')
       = (\<lambda>c. [])(1 := [''System: Invalid DM format. Use: PRIVMSG <user> <message>'' @ [NL]])"
    "chatHistory (?h ''PRIVMSG carol hi'') = []"
    "sent (?h ''PRIVMSG carol hi'')
       = (\<lambda>c. [])(1 := [''System: User '' @ [CHR 0x27] @ ''carol'' @ [CHR 0x27]
                           @ '' not found or is offline.'' @ [NL]])"
    "chatHistory (?h ''GROUPMSG friends'') = []"
    "sent (?h ''GROUPMSG friends'')
       = (\<lambda>c. [])(1 := [''System: Invalid GM format. Use: GROUPMSG <group> <message>'' @ [NL]])"
    "chatHistory (?h ''GROUPMSG nobody hi'') = []" "chatLog (?h ''GROUPMSG nobody hi'') = []"
    "sent (?h ''GROUPMSG nobody hi'')
       = (\<lambda>c. [])(1 := [''System: Group '' @ [CHR 0x27] @ ''#nobody'' @ [CHR 0x27]
                           @ '' not found.'' @ [NL]])"
    using e1 e2 e3 e4
    by (simp_all add: room_def invalidDM_def invalidGM_def userNotFound_def groupNotFound_def)
  moreover have "chatHistory (?h ''PRIVMSG bob hello'') = [''DM from alice to bob: hello'' @ [NL]]"
    "chatHistory (?h ''GROUPMSG friends hey'') = [''GROUPMSG to #friends from alice: hey'' @ [NL]]"
    unfolding e5 e6
    by (simp_all add: room_def keepLast_def MAX_HISTORY_LINES_def dmLog_def gmLog_def
        ensureNewline_def HasSuffix_def)
  moreover have "chatHistory (?h ''hi'') = [''alice: hi'' @ [NL]]"
    "sent (?h ''hi'') 2 = [''alice: hi'' @ [NL]]"
    using e7 by (simp_all add: room_def keepLast_def MAX_HISTORY_LINES_def)
  ultimately show ?thesis by simp
qed

subsection \<open>C10: The replay at login\<close>

text \<open>
  C10 as stated fails when a username logs in a second time: the replay on connection 2
  contains the join notice that the first session of \<open>alice\<close> left in the history.
\<close>

theorem own_join_line_counterexample:
  "snd (login [2] 2 (''alice'' @ [NL]) rejoining) = Active ''alice''
   \<and> sent (fst (login [2] 2 (''alice'' @ [NL]) rejoining)) 2
       = [''REQ_USERNAME'' @ [NL], ''Welcome, alice!'' @ [NL],
          ''--- Recent Chat History ---'' @ [NL],
          ''System: alice has joined the chat.'' @ [NL],
          ''System: alice has left the chat.'' @ [NL],
          ''--- End of History ---'' @ [NL]]"
  by (simp add: rejoining_eval run_defs)

text \<open>
  C10, amended. For every successful login the joining connection is sent the welcome line
  and then the replay of the history as it was before the join notice of this login is
  appended; that content can hold a notice \<^verbatim>\<open>System: <username> has joined the chat.\<close>
  of an earlier session of the same username. The join notice of this login is appended to
  the history after the replay and is sent to every other Active session, not to the joining
  connection.
\<close>

theorem join_replay:
  assumes "rangeOrder order s" and "c \<in> dom (clients s)"
    and "snd (login order c line s) = Active u"
  shows "sent (fst (login order c line s)) c
           = sent s c @ [welcomeMsg u @ [NL]] @ replayLines (chatHistory s)
       \<and> chatHistory (fst (login order c line s)) = keepLast (chatHistory s @ [joinMsg u @ [NL]])
       \<and> (\<forall>e. e \<noteq> c \<longrightarrow>
            sent (fst (login order c line s)) e
              = (if isActive s e then sent s e @ [joinMsg u @ [NL]] else sent s e))"
proof -
  have r: "rangeOrder order (activate c u s)"
    using assms(1,2) by (simp add: rangeOrder_activate)
  have l: "fst (login order c line s) = greet order c u (activate c u s)"
    using login_Active(1) [OF assms(3)] by simp
  show ?thesis
    by (simp add: l sent_greet [OF r] isActive_activate)
qed

text \<open>The instance of the amended C10 on the second login of \<open>alice\<close>.\<close>

theorem join_replay_witness:
  "rangeOrder [2] rejoining \<and> 2 \<in> dom (clients rejoining)
   \<and> snd (login [2] 2 (''alice'' @ [NL]) rejoining) = Active ''alice''
   \<and> sent (fst (login [2] 2 (''alice'' @ [NL]) rejoining)) 2
       = [''REQ_USERNAME'' @ [NL], ''Welcome, alice!'' @ [NL]]
         @ replayLines [''System: alice has joined the chat.'' @ [NL],
                        ''System: alice has left the chat.'' @ [NL]]
   \<and> sent (fst (login [2] 2 (''alice'' @ [NL]) rejoining)) 1
       = [''REQ_USERNAME'' @ [NL], ''Welcome, alice!'' @ [NL]]
   \<and> chatHistory (fst (login [2] 2 (''alice'' @ [NL]) rejoining))
       = [''System: alice has joined the chat.'' @ [NL],
          ''System: alice has left the chat.'' @ [NL],
          ''System: alice has joined the chat.'' @ [NL]]"
proof -
  have r: "rangeOrder [2] rejoining" and d: "2 \<in> dom (clients rejoining)"
    by (simp_all add: rejoining_eval rangeOrder_def)
  have a: "snd (login [2] 2 (''alice'' @ [NL]) rejoining) = Active ''alice''"
    by (simp add: rejoining_eval run_defs)
  have n: "\<not> isActive rejoining 1"
    by (simp add: rejoining_eval isActive_def)
  from join_replay [OF r d a] n
  have "sent (fst (login [2] 2 (''alice'' @ [NL]) rejoining)) 2
          = sent rejoining 2 @ [welcomeMsg ''alice'' @ [NL]] @ replayLines (chatHistory rejoining)"
    and "sent (fst (login [2] 2 (''alice'' @ [NL]) rejoining)) 1 = sent rejoining 1"
    and "chatHistory (fst (login [2] 2 (''alice'' @ [NL]) rejoining))
          = keepLast (chatHistory rejoining @ [joinMsg ''alice'' @ [NL]])"
    by simp_all
  then show ?thesis
    using r d a
    by (simp add: rejoining_eval welcomeMsg_def joinMsg_def keepLast_def MAX_HISTORY_LINES_def)
qed

end
